theory Spec2Isabelle
  imports Complex_Main "HOL-Library.List_Lexorder" "HOL-Library.Char_ord"
begin

section \<open>Python and numpy values used by \<open>wyrm/types.py\<close>\<close>

text \<open>
  The exceptions the module can raise.  \<open>AssertionError\<close> comes from \<open>Data.__init__\<close>,
  \<open>ValueError\<close> from numpy (a shape that cannot be broadcast, a negative dimension),
  \<open>TypeError\<close> from \<open>len()\<close> of an array without axes, \<open>AttributeError\<close> from reading
  an attribute that an object does not have, \<open>RecursionError\<close> from a \<open>deepcopy\<close> that
  descends too far.  \<open>NotModelled\<close> is no Python exception: it marks a use of Python
  or numpy that this development does not describe (no theorem below is about such a
  use).
\<close>

datatype error =
  AssertionError | ValueError | TypeError | AttributeError | IndexError | RecursionError |
  NotModelled

text \<open>
  A float64 value is a finite number, an infinity or NaN; the payload of \<open>Fin\<close> is the
  number the float stands for.  Only moving, converting and comparing values is modelled,
  no floating-point arithmetic.
\<close>

datatype float64 = Fin real | PInf | NInf | NaN

datatype scalar = IntV int | FloatV float64

datatype dtype = Int64 | Float64

text \<open>
  An ndarray: element type, shape, and the elements in C (row-major) order.  An array
  of shape \<open>n # t\<close> is \<open>n\<close> records along the leading axis, each of
  \<open>prod_list t\<close> elements.
\<close>

record ndarray =
  dtype :: dtype
  shape :: "nat list"
  elems :: "scalar list"

definition wf_ndarray :: "ndarray \<Rightarrow> bool" where
  "wf_ndarray a \<longleftrightarrow> length (elems a) = prod_list (shape a)"

fun scalar_dtype :: "scalar \<Rightarrow> dtype" where
  "scalar_dtype (IntV n) = Int64"
| "scalar_dtype (FloatV f) = Float64"

text \<open>Every element of the array is of the array's element type.\<close>

definition well_typed :: "ndarray \<Rightarrow> bool" where
  "well_typed a \<longleftrightarrow> list_all (\<lambda>x. scalar_dtype x = dtype a) (elems a)"

subsection \<open>Conversion between element types\<close>

fun bitlen_nat :: "nat \<Rightarrow> nat" where
  "bitlen_nat n = (if n = 0 then 0 else Suc (bitlen_nat (n div 2)))"

declare bitlen_nat.simps [simp del]

text \<open>
  The integer that converting \<open>n\<close> to float64 yields: exact up to 53 bits, otherwise
  rounded to the nearest multiple of the unit in the last place, ties to even.
\<close>

definition round_f64 :: "int \<Rightarrow> int" where
  "round_f64 n =
     (let a = nat \<bar>n\<bar>; b = bitlen_nat a in
      if b \<le> 53 then n
      else
        let e = b - 53; q = a div 2 ^ e; r = a mod 2 ^ e; h = 2 ^ (e - 1);
            q' = (if h < r \<or> (r = h \<and> odd q) then q + 1 else q)
        in sgn n * int (q' * 2 ^ e))"

text \<open>float64 to int64 truncates toward zero; what is out of range becomes the minimum.\<close>

fun f64_to_i64 :: "float64 \<Rightarrow> int" where
  "f64_to_i64 (Fin r) =
     (let t = (if 0 \<le> r then \<lfloor>r\<rfloor> else \<lceil>r\<rceil>)
      in if - (2 ^ 63) \<le> t \<and> t < 2 ^ 63 then t else - (2 ^ 63))"
| "f64_to_i64 _ = - (2 ^ 63)"

fun astype :: "dtype \<Rightarrow> scalar \<Rightarrow> scalar" where
  "astype Float64 (IntV n) = FloatV (Fin (of_int (round_f64 n)))"
| "astype Float64 (FloatV f) = FloatV f"
| "astype Int64 (IntV n) = IntV n"
| "astype Int64 (FloatV f) = IntV (f64_to_i64 f)"

subsection \<open>\<open>len\<close>, \<open>np.empty\<close>, \<open>np.array([])\<close>\<close>

text \<open>\<open>len(a)\<close> is the size of the leading axis; an array without axes has no length.\<close>

definition np_len :: "ndarray \<Rightarrow> error + nat" where
  "np_len a = (case shape a of [] \<Rightarrow> Inl TypeError | n # _ \<Rightarrow> Inr n)"

text \<open>
  \<open>np.empty(shape)\<close>: a float64 array (the default element type) whose contents are
  whatever the allocated memory holds.  The memory is the argument \<open>mem\<close>: position
  \<open>i\<close> of the new array holds \<open>mem i\<close>.  A negative dimension is a \<open>ValueError\<close>.
\<close>

definition np_empty :: "(nat \<Rightarrow> float64) \<Rightarrow> int list \<Rightarrow> error + ndarray" where
  "np_empty mem shp =
     (if \<exists>d \<in> set shp. d < 0 then Inl ValueError
      else Inr \<lparr>dtype = Float64, shape = map nat shp,
                elems = map (\<lambda>i. FloatV (mem i)) [0 ..< prod_list (map nat shp)]\<rparr>)"

text \<open>\<open>np.array([])\<close>: the empty float64 array of shape \<open>(0,)\<close>.\<close>

definition np_array_empty :: ndarray where
  "np_array_empty = \<lparr>dtype = Float64, shape = [0], elems = []\<rparr>"

subsection \<open>Slices along the leading axis\<close>

text \<open>
  A bound of a Python slice \<open>a[s:e]\<close> on an axis of size \<open>n\<close>: a negative bound counts
  from the end, and every bound is clipped to \<open>0..n\<close>.  A missing start is \<open>0\<close>, a
  missing stop is \<open>n\<close>.
\<close>

definition clip_index :: "nat \<Rightarrow> int \<Rightarrow> nat" where
  "clip_index n i = (if i < 0 then nat (max (int n + i) 0) else min (nat i) n)"

definition slice_start :: "nat \<Rightarrow> int option \<Rightarrow> nat" where
  "slice_start n s = (case s of None \<Rightarrow> 0 | Some i \<Rightarrow> clip_index n i)"

definition slice_stop :: "nat \<Rightarrow> int option \<Rightarrow> nat" where
  "slice_stop n e = (case e of None \<Rightarrow> n | Some j \<Rightarrow> clip_index n j)"

text \<open>
  \<open>a[s:e]\<close> for an array with at least one axis (both callers have taken \<open>len\<close> of the
  array before); an array without axes is returned as it is.
\<close>

definition np_getslice :: "ndarray \<Rightarrow> int option \<Rightarrow> int option \<Rightarrow> ndarray" where
  "np_getslice a s e =
     (case shape a of
        [] \<Rightarrow> a
      | n # t \<Rightarrow>
          let i = slice_start n s; j = slice_stop n e; m = j - i; rs = prod_list t
          in a\<lparr>shape := m # t, elems := take (m * rs) (drop (i * rs) (elems a))\<rparr>)"

subsection \<open>Broadcasting and slice assignment\<close>

primrec chunks :: "nat \<Rightarrow> nat \<Rightarrow> 'a list \<Rightarrow> 'a list list" where
  "chunks 0 n xs = []"
| "chunks (Suc k) n xs = take n xs # chunks k n (drop n xs)"

text \<open>
  Assignment drops leading axes of size 1 from the source while it has more axes than
  the destination.
\<close>

fun strip_ones :: "nat \<Rightarrow> nat list \<Rightarrow> nat list" where
  "strip_ones k [] = []"
| "strip_ones k (s # ss) =
     (if k < length (s # ss) \<and> s = 1 then strip_ones k ss else s # ss)"

text \<open>
  The elements of a source of shape \<open>ss\<close> stretched to shape \<open>ds\<close> (both of the same
  number of axes, every source axis of the destination's size or of size 1).
\<close>

fun bcast_data :: "nat list \<Rightarrow> nat list \<Rightarrow> 'a list \<Rightarrow> 'a list" where
  "bcast_data (s # ss) (d # ds) xs =
     (if s = d then concat (map (bcast_data ss ds) (chunks s (prod_list ss) xs))
      else concat (replicate d (bcast_data ss ds xs)))"
| "bcast_data _ _ xs = xs"

definition broadcast_to :: "nat list \<Rightarrow> nat list \<Rightarrow> 'a list \<Rightarrow> 'a list option" where
  "broadcast_to ss ds xs =
     (let ss1 = strip_ones (length ds) ss in
      if length ds < length ss1 then None
      else
        let ss2 = replicate (length ds - length ss1) 1 @ ss1 in
        if list_all2 (\<lambda>s d. s = d \<or> s = 1) ss2 ds then Some (bcast_data ss2 ds xs)
        else None)"

text \<open>
  \<open>dst[s:e] = src\<close>: the source is broadcast to the shape of the slice and converted
  to the destination's element type; a source that cannot be broadcast is a
  \<open>ValueError\<close> and leaves the destination as it was.
\<close>

definition np_setslice ::
  "ndarray \<Rightarrow> int option \<Rightarrow> int option \<Rightarrow> ndarray \<Rightarrow> error + ndarray" where
  "np_setslice dst s e src =
     (case shape dst of
        [] \<Rightarrow> Inl IndexError
      | n # t \<Rightarrow>
          let i = slice_start n s; j = slice_stop n e; m = j - i; rs = prod_list t
          in (case broadcast_to (shape src) (m # t) (elems src) of
                None \<Rightarrow> Inl ValueError
              | Some xs \<Rightarrow>
                  Inr (dst\<lparr>elems := take (i * rs) (elems dst)
                                     @ map (astype (dtype dst)) xs
                                     @ drop ((i + m) * rs) (elems dst)\<rparr>)))"

text \<open>
  \<open>np.concatenate([x, y], axis=0)\<close>: both arrays need an axis 0 and the same shape
  behind it; the result has the common element type (float64 as soon as one is).
\<close>

definition promote :: "dtype \<Rightarrow> dtype \<Rightarrow> dtype" where
  "promote d1 d2 = (if d1 = Float64 \<or> d2 = Float64 then Float64 else Int64)"

definition np_concatenate :: "ndarray \<Rightarrow> ndarray \<Rightarrow> error + ndarray" where
  "np_concatenate x y =
     (case (shape x, shape y) of
        (n # t, m # u) \<Rightarrow>
          if t = u then
            Inr \<lparr>dtype = promote (dtype x) (dtype y), shape = (n + m) # t,
                 elems = map (astype (promote (dtype x) (dtype y))) (elems x @ elems y)\<rparr>
          else Inl ValueError
      | _ \<Rightarrow> Inl ValueError)"

section \<open>RingBuffer\<close>

record ring_buffer =
  rb_length :: int
  rb_data :: "ndarray option"
  rb_full :: bool
  rb_idx :: int

definition RingBuffer_init :: "int \<Rightarrow> ring_buffer" where
  "RingBuffer_init len = \<lparr>rb_length = len, rb_data = None, rb_full = False, rb_idx = 0\<rparr>"

text \<open>
  \<open>RingBuffer.append\<close>.  The result is \<open>Inr\<close> of the buffer after the call, or
  \<open>Inl\<close> of the exception together with the buffer as the call left it: what was
  assigned before the exception stays assigned.
\<close>

definition RingBuffer_append ::
  "(nat \<Rightarrow> float64) \<Rightarrow> ring_buffer \<Rightarrow> ndarray \<Rightarrow> (error \<times> ring_buffer) + ring_buffer" where
  "RingBuffer_append mem self data =
     (case np_len data of
        Inl e \<Rightarrow> Inl (e, self)
      | Inr n \<Rightarrow>
          if n = 0 then Inr self
          else
            (case (case rb_data self of
                     None \<Rightarrow> np_empty mem ((map int (shape data))[0 := rb_length self])
                   | Some a \<Rightarrow> Inr a) of
               Inl e \<Rightarrow> Inl (e, self)
             | Inr store \<Rightarrow>
                 let self1 = self\<lparr>rb_data := Some store\<rparr>;
                     data1 = (if rb_length self1 < int n
                              then np_getslice data (Some (- rb_length self1)) None
                              else data);
                     n1 = int (hd (shape data1))
                 in
                 if rb_idx self1 + n1 < rb_length self1 then
                   (case np_setslice store (Some (rb_idx self1)) (Some (rb_idx self1 + n1)) data1 of
                      Inl e \<Rightarrow> Inl (e, self1)
                    | Inr store1 \<Rightarrow>
                        Inr (self1\<lparr>rb_data := Some store1, rb_idx := rb_idx self1 + n1\<rparr>))
                 else
                   let self2 = self1\<lparr>rb_full := True\<rparr>;
                       l1 = rb_length self2 - rb_idx self2;
                       l2 = n1 - l1
                   in
                   (case np_setslice store (Some (- l1)) None (np_getslice data1 None (Some l1)) of
                      Inl e \<Rightarrow> Inl (e, self2)
                    | Inr store1 \<Rightarrow>
                        (case np_setslice store1 None (Some l2) (np_getslice data1 (Some l1) None) of
                           Inl e \<Rightarrow> Inl (e, self2\<lparr>rb_data := Some store1\<rparr>)
                         | Inr store2 \<Rightarrow>
                             Inr (self2\<lparr>rb_data := Some store2, rb_idx := l2\<rparr>)))))"

text \<open>
  \<open>RingBuffer.get\<close>: the value returned (or the exception) and the buffer after the
  call.
\<close>

definition RingBuffer_get :: "ring_buffer \<Rightarrow> (error + ndarray) \<times> ring_buffer" where
  "RingBuffer_get self =
     (case rb_data self of
        None \<Rightarrow> (Inr np_array_empty, self)
      | Some store \<Rightarrow>
          if rb_full self then
            (np_concatenate (np_getslice store (Some (rb_idx self)) None)
                            (np_getslice store None (Some (rb_idx self))), self)
          else (Inr (np_getslice store None (Some (rb_idx self))), self))"

text \<open>A sequence of \<open>append\<close> calls; the first exception ends it.\<close>

fun appends ::
  "(nat \<Rightarrow> float64) \<Rightarrow> ring_buffer \<Rightarrow> ndarray list \<Rightarrow> (error \<times> ring_buffer) + ring_buffer" where
  "appends mem self [] = Inr self"
| "appends mem self (d # ds) =
     (case RingBuffer_append mem self d of Inl e \<Rightarrow> Inl e | Inr self' \<Rightarrow> appends mem self' ds)"

subsection \<open>What a buffer holds\<close>

text \<open>The last \<open>k\<close> elements of a list.\<close>

definition lastn :: "nat \<Rightarrow> 'a list \<Rightarrow> 'a list" where
  "lastn k xs = drop (length xs - k) xs"

text \<open>
  A buffer whose fields fit together for records of shape \<open>tsh\<close>: the write position
  is inside the store, and the store, once allocated, is a float64 array of
  \<open>rb_length\<close> records of that shape.
\<close>

definition rb_ok :: "nat list \<Rightarrow> ring_buffer \<Rightarrow> bool" where
  "rb_ok tsh rb \<longleftrightarrow>
     0 \<le> rb_idx rb \<and> rb_idx rb < rb_length rb \<and>
     (case rb_data rb of
        None \<Rightarrow> \<not> rb_full rb \<and> rb_idx rb = 0
      | Some st \<Rightarrow>
          dtype st = Float64 \<and> shape st = nat (rb_length rb) # tsh \<and> wf_ndarray st \<and>
          well_typed st)"

text \<open>The number of records a buffer holds, and their elements from oldest to newest.\<close>

definition rb_count :: "ring_buffer \<Rightarrow> nat" where
  "rb_count rb = (if rb_full rb then nat (rb_length rb) else nat (rb_idx rb))"

definition rb_contents :: "ring_buffer \<Rightarrow> scalar list" where
  "rb_contents rb =
     (case rb_data rb of
        None \<Rightarrow> []
      | Some st \<Rightarrow>
          let k = nat (rb_idx rb) * prod_list (tl (shape st)) in
          if rb_full rb then drop k (elems st) @ take k (elems st) else take k (elems st))"

text \<open>
  A batch that fits records of shape \<open>tsh\<close>: it has a leading axis, as many elements
  as its shape says, and, unless it is empty, records of shape \<open>tsh\<close>.
\<close>

definition batch_ok :: "nat list \<Rightarrow> ndarray \<Rightarrow> bool" where
  "batch_ok tsh d \<longleftrightarrow>
     wf_ndarray d \<and> shape d \<noteq> [] \<and> (hd (shape d) \<noteq> 0 \<longrightarrow> tl (shape d) = tsh)"

definition num_records :: "ndarray list \<Rightarrow> nat" where
  "num_records ds = sum_list (map (\<lambda>d. hd (shape d)) ds)"

definition all_elems :: "ndarray list \<Rightarrow> scalar list" where
  "all_elems ds = concat (map (\<lambda>d. map (astype Float64) (elems d)) ds)"

text \<open>The buffer a call leaves behind, whether it returned or raised.\<close>

fun outcome_state :: "(error \<times> ring_buffer) + ring_buffer \<Rightarrow> ring_buffer" where
  "outcome_state (Inl (e, rb)) = rb"
| "outcome_state (Inr rb) = rb"

text \<open>
  A caller that goes on appending whatever a call raised: each call starts from the
  buffer the call before left behind.
\<close>

fun appends_any :: "(nat \<Rightarrow> float64) \<Rightarrow> ring_buffer \<Rightarrow> ndarray list \<Rightarrow> ring_buffer" where
  "appends_any mem self [] = self"
| "appends_any mem self (d # ds) =
     appends_any mem (outcome_state (RingBuffer_append mem self d)) ds"

section \<open>Python objects\<close>

text \<open>
  \<open>Data\<close> keeps references to the arrays and lists it is given, and \<open>copy\<close> is about
  which objects are shared, so objects live in a heap: a list of objects, the address of
  an object being its position.  A value is \<open>None\<close>, an integer, a string, or a reference
  to a heap object; a heap object is an ndarray, a list of values, or an instance with
  its attribute dictionary \<open>__dict__\<close> (names with their values, in insertion order).
  Integers and strings are immutable and are held by value.
\<close>

datatype pyval = PNone | PInt int | PStr string | PRef nat

datatype pyobj = OArray ndarray | OList "pyval list" | OInst "(string \<times> pyval) list"

type_synonym heap = "pyobj list"

definition deref :: "heap \<Rightarrow> pyval \<Rightarrow> pyobj option" where
  "deref h v = (case v of PRef a \<Rightarrow> if a < length h then Some (h ! a) else None | _ \<Rightarrow> None)"

text \<open>Running one step after another; the first exception ends the computation.\<close>

definition and_then :: "'e + 'a \<Rightarrow> ('a \<Rightarrow> 'e + 'b) \<Rightarrow> 'e + 'b" where
  "and_then r f = (case r of Inl e \<Rightarrow> Inl e | Inr x \<Rightarrow> f x)"

text \<open>
  A list comprehension \<open>[f(i) for i in xs]\<close>: every element is evaluated, in order.
\<close>

fun comprehension :: "('i \<Rightarrow> 'e + 'a) \<Rightarrow> 'i list \<Rightarrow> 'e + 'a list" where
  "comprehension f [] = Inr []"
| "comprehension f (i # is) =
     and_then (f i) (\<lambda>x. and_then (comprehension f is) (\<lambda>xs. Inr (x # xs)))"

text \<open>
  \<open>len(v)\<close>: of a list, an ndarray (its leading axis) or a string; anything else here
  has no length.
\<close>

definition py_len :: "heap \<Rightarrow> pyval \<Rightarrow> error + nat" where
  "py_len h v =
     (case v of
        PStr s \<Rightarrow> Inr (length s)
      | PRef a \<Rightarrow>
          (case deref h v of
             Some (OArray arr) \<Rightarrow> np_len arr
           | Some (OList xs) \<Rightarrow> Inr (length xs)
           | _ \<Rightarrow> Inl TypeError)
      | _ \<Rightarrow> Inl TypeError)"

text \<open>
  The ndarray behind a value whose \<open>.ndim\<close> or \<open>.shape\<close> is read; other values have no
  such attribute.
\<close>

definition as_ndarray :: "heap \<Rightarrow> pyval \<Rightarrow> error + ndarray" where
  "as_ndarray h v =
     (case deref h v of Some (OArray arr) \<Rightarrow> Inr arr | _ \<Rightarrow> Inl AttributeError)"

text \<open>
  \<open>v[i]\<close> for a list \<open>v\<close> and \<open>i \<ge> 0\<close>.  Indexing anything else is outside this model
  (\<open>NotModelled\<close>).
\<close>

definition py_getitem :: "heap \<Rightarrow> pyval \<Rightarrow> nat \<Rightarrow> error + pyval" where
  "py_getitem h v i =
     (case deref h v of
        Some (OList xs) \<Rightarrow> if i < length xs then Inr (xs ! i) else Inl IndexError
      | _ \<Rightarrow> Inl NotModelled)"

text \<open>\<open>obj.__dict__\<close>: only instances have one.\<close>

definition inst_dict :: "heap \<Rightarrow> pyval \<Rightarrow> error + (string \<times> pyval) list" where
  "inst_dict h v = (case deref h v of Some (OInst d) \<Rightarrow> Inr d | _ \<Rightarrow> Inl AttributeError)"

definition getattr :: "(string \<times> pyval) list \<Rightarrow> string \<Rightarrow> error + pyval" where
  "getattr d name = (case map_of d name of Some v \<Rightarrow> Inr v | None \<Rightarrow> Inl AttributeError)"

text \<open>
  \<open>setattr\<close> on an attribute dictionary: an existing name keeps its place, a new name
  goes to the end.
\<close>

fun dict_set :: "string \<Rightarrow> pyval \<Rightarrow> (string \<times> pyval) list \<Rightarrow> (string \<times> pyval) list" where
  "dict_set k v [] = [(k, v)]"
| "dict_set k v ((k', v') # d) = (if k = k' then (k, v) # d else (k', v') # dict_set k v d)"

subsection \<open>Equality of numpy values\<close>

text \<open>\<open>==\<close> on float64: NaN equals nothing, itself included.\<close>

fun float_eq :: "float64 \<Rightarrow> float64 \<Rightarrow> bool" where
  "float_eq (Fin a) (Fin b) = (a = b)"
| "float_eq PInf PInf = True"
| "float_eq NInf NInf = True"
| "float_eq _ _ = False"

text \<open>An integer compared with a float is converted to float64 first.\<close>

fun scalar_eq :: "scalar \<Rightarrow> scalar \<Rightarrow> bool" where
  "scalar_eq (IntV a) (IntV b) = (a = b)"
| "scalar_eq (FloatV f) (FloatV g) = float_eq f g"
| "scalar_eq (IntV a) (FloatV g) = float_eq (Fin (of_int (round_f64 a))) g"
| "scalar_eq (FloatV f) (IntV b) = float_eq f (Fin (of_int (round_f64 b)))"

text \<open>
  \<open>np.array_equal(a, b)\<close>: the same shape and all elements equal under \<open>==\<close>.
\<close>

definition np_array_equal :: "ndarray \<Rightarrow> ndarray \<Rightarrow> bool" where
  "np_array_equal a b \<longleftrightarrow> shape a = shape b \<and> list_all2 scalar_eq (elems a) (elems b)"

text \<open>
  \<open>np.array_equal\<close> on two values.  Only ndarrays are modelled; it never raises.
\<close>

definition py_array_equal :: "heap \<Rightarrow> pyval \<Rightarrow> pyval \<Rightarrow> error + bool" where
  "py_array_equal h v w =
     (case (deref h v, deref h w) of
        (Some (OArray a), Some (OArray b)) \<Rightarrow> Inr (np_array_equal a b)
      | _ \<Rightarrow> Inl NotModelled)"

text \<open>
  \<open>(a == b).all()\<close> for two ndarrays of one shape.  Comparing arrays of different
  shapes, or other values, is outside this model.
\<close>

definition py_elementwise_all :: "heap \<Rightarrow> pyval \<Rightarrow> pyval \<Rightarrow> error + bool" where
  "py_elementwise_all h v w =
     (case (deref h v, deref h w) of
        (Some (OArray a), Some (OArray b)) \<Rightarrow>
          if shape a = shape b then Inr (list_all2 scalar_eq (elems a) (elems b))
          else Inl NotModelled
      | _ \<Rightarrow> Inl NotModelled)"

fun is_atom :: "pyval \<Rightarrow> bool" where
  "is_atom (PRef a) = False"
| "is_atom _ = True"

fun is_str :: "pyval \<Rightarrow> bool" where
  "is_str (PStr s) = True"
| "is_str _ = False"

text \<open>
  \<open>v == w\<close> for \<open>None\<close>, integers and strings, and for lists of them (equal length and
  equal elements).  Other comparisons are outside this model.
\<close>

definition py_eq :: "heap \<Rightarrow> pyval \<Rightarrow> pyval \<Rightarrow> error + bool" where
  "py_eq h v w =
     (if is_atom v \<and> is_atom w then Inr (v = w)
      else
        case (deref h v, deref h w) of
          (Some (OList xs), Some (OList ys)) \<Rightarrow>
            if list_all is_atom xs \<and> list_all is_atom ys then Inr (xs = ys)
            else Inl NotModelled
        | _ \<Rightarrow> Inl NotModelled)"

section \<open>Data\<close>

text \<open>
  \<open>np.array(i)\<close> for an ndarray \<open>i\<close>: a new array with the same contents.  The
  heap grows by the new array; its address is returned.
\<close>

definition np_array :: "heap \<Rightarrow> pyval \<Rightarrow> error + (pyval \<times> heap)" where
  "np_array h v =
     (case deref h v of
        Some (OArray arr) \<Rightarrow> Inr (PRef (length h), h @ [OArray arr])
      | _ \<Rightarrow> Inl NotModelled)"

text \<open>\<open>[np.array(i) for i in axes]\<close>, the heap threaded through.\<close>

fun np_array_each :: "heap \<Rightarrow> pyval list \<Rightarrow> error + (pyval list \<times> heap)" where
  "np_array_each h [] = Inr ([], h)"
| "np_array_each h (v # vs) =
     and_then (np_array h v) (\<lambda>(r, h1).
     and_then (np_array_each h1 vs) (\<lambda>(rs, h2). Inr (r # rs, h2)))"

text \<open>
  The loop of \<open>__init__\<close> over \<open>range(data.ndim)\<close>: the first axis whose length is not
  the size of the array's axis raises \<open>AssertionError\<close>.
\<close>

fun check_axes :: "heap \<Rightarrow> ndarray \<Rightarrow> pyval \<Rightarrow> nat list \<Rightarrow> error + unit" where
  "check_axes h arr axes [] = Inr ()"
| "check_axes h arr axes (i # is) =
     and_then (py_getitem h axes i) (\<lambda>ax.
     and_then (py_len h ax) (\<lambda>l.
       if shape arr ! i \<noteq> l then Inl AssertionError else check_axes h arr axes is))"

text \<open>
  \<open>Data.__init__\<close>.  The result is the new instance and the heap with it, or the
  exception.  \<open>data\<close>, \<open>names\<close> and \<open>units\<close> are stored as given (the instance shares
  them with the caller); the axes are stored as a new list of new arrays.
\<close>

definition Data_init ::
  "heap \<Rightarrow> pyval \<Rightarrow> pyval \<Rightarrow> pyval \<Rightarrow> pyval \<Rightarrow> error + (pyval \<times> heap)" where
  "Data_init h data axes names units =
     and_then (as_ndarray h data) (\<lambda>arr.
     and_then (py_len h axes) (\<lambda>la.
       if length (shape arr) \<noteq> la then Inl AssertionError
       else
     and_then (py_len h names) (\<lambda>ln.
       if la \<noteq> ln then Inl AssertionError
       else
     and_then (py_len h units) (\<lambda>lu.
       if ln \<noteq> lu then Inl AssertionError
       else
     and_then (check_axes h arr axes [0 ..< length (shape arr)]) (\<lambda>_.
     and_then (comprehension (py_getitem h axes) [0 ..< la]) (\<lambda>axs.
     and_then (np_array_each h axs) (\<lambda>(new_axes, h1).
       let h2 = h1 @ [OList new_axes];
           self = OInst [(''data'', data), (''axes'', PRef (length h1)),
                         (''names'', names), (''units'', units)]
       in Inr (PRef (length h2), h2 @ [self]))))))))"

text \<open>
  \<open>Data.__eq__\<close>.  The conjuncts of the condition are evaluated from left to right
  and the first false one ends the evaluation with \<open>False\<close>.
\<close>

definition Data_eq :: "heap \<Rightarrow> pyval \<Rightarrow> pyval \<Rightarrow> error + bool" where
  "Data_eq h self other =
     and_then (inst_dict h self) (\<lambda>d1.
     and_then (inst_dict h other) (\<lambda>d2.
       if sort (map fst d1) \<noteq> sort (map fst d2) then Inr False
       else
     and_then (getattr d1 ''data'') (\<lambda>x1.
     and_then (getattr d2 ''data'') (\<lambda>x2.
     and_then (py_array_equal h x1 x2) (\<lambda>b1.
       if \<not> b1 then Inr False
       else
     and_then (getattr d1 ''axes'') (\<lambda>a1.
     and_then (py_len h a1) (\<lambda>l1.
     and_then (getattr d2 ''axes'') (\<lambda>a2.
     and_then (py_len h a2) (\<lambda>l2.
       if l1 \<noteq> l2 then Inr False
       else
     and_then (comprehension (\<lambda>i.
         and_then (py_getitem h a1 i) (\<lambda>p.
         and_then (as_ndarray h p) (\<lambda>pa.
         and_then (py_getitem h a2 i) (\<lambda>q.
         and_then (as_ndarray h q) (\<lambda>qa. Inr (shape pa = shape qa)))))) [0 ..< l1]) (\<lambda>bs2.
       if \<not> list_all id bs2 then Inr False
       else
     and_then (comprehension (\<lambda>i.
         and_then (py_getitem h a1 i) (\<lambda>p.
         and_then (py_getitem h a2 i) (\<lambda>q. py_elementwise_all h p q))) [0 ..< l1]) (\<lambda>bs3.
       if \<not> list_all id bs3 then Inr False
       else
     and_then (getattr d1 ''names'') (\<lambda>n1.
     and_then (getattr d2 ''names'') (\<lambda>n2.
     and_then (py_eq h n1 n2) (\<lambda>b4.
       if \<not> b4 then Inr False
       else
     and_then (getattr d1 ''units'') (\<lambda>u1.
     and_then (getattr d2 ''units'') (\<lambda>u2.
     and_then (py_eq h u1 u2) (\<lambda>b5. Inr b5)))))))))))))))))"

subsection \<open>\<open>copy.deepcopy\<close>\<close>

text \<open>
  \<open>copy.deepcopy\<close>: integers, strings and \<open>None\<close> are returned as they are; an ndarray,
  a list and an instance are rebuilt as new objects from deep copies of their parts.
  The first argument bounds how deep the copy may descend: Python ends a deeper
  recursion with \<open>RecursionError\<close>.  The model copies object trees: an object reached
  twice is copied twice (Python's memo table, which keeps such sharing and lets it copy
  cyclic objects, is not modelled).
\<close>

fun deepcopy_each ::
  "(heap \<Rightarrow> pyval \<Rightarrow> error + (pyval \<times> heap)) \<Rightarrow> heap \<Rightarrow> pyval list \<Rightarrow>
   error + (pyval list \<times> heap)" where
  "deepcopy_each f h [] = Inr ([], h)"
| "deepcopy_each f h (v # vs) =
     and_then (f h v) (\<lambda>(r, h1).
     and_then (deepcopy_each f h1 vs) (\<lambda>(rs, h2). Inr (r # rs, h2)))"

primrec deepcopy :: "nat \<Rightarrow> heap \<Rightarrow> pyval \<Rightarrow> error + (pyval \<times> heap)" where
  "deepcopy 0 h v = Inl RecursionError"
| "deepcopy (Suc n) h v =
     (case v of
        PRef a \<Rightarrow>
          (case deref h v of
             None \<Rightarrow> Inl NotModelled
           | Some (OArray arr) \<Rightarrow> Inr (PRef (length h), h @ [OArray arr])
           | Some (OList xs) \<Rightarrow>
               and_then (deepcopy_each (deepcopy n) h xs) (\<lambda>(ys, h1).
                 Inr (PRef (length h1), h1 @ [OList ys]))
           | Some (OInst d) \<Rightarrow>
               and_then (deepcopy_each (deepcopy n) h (map snd d)) (\<lambda>(ys, h1).
                 Inr (PRef (length h1), h1 @ [OInst (zip (map fst d) ys)])))
      | _ \<Rightarrow> Inr (v, h))"

text \<open>
  \<open>Data.copy(**kwargs)\<close>: a shallow copy of \<open>self\<close> (a new instance with the same
  attribute values), every keyword set on it, and a deep copy of the result returned.
\<close>

definition Data_copy ::
  "nat \<Rightarrow> heap \<Rightarrow> pyval \<Rightarrow> (string \<times> pyval) list \<Rightarrow> error + (pyval \<times> heap)" where
  "Data_copy limit h self kwargs =
     and_then (inst_dict h self) (\<lambda>d.
       let obj = PRef (length h);
           h1 = h @ [OInst d];
           h2 = h1[length h := OInst (fold (\<lambda>(name, value). dict_set name value) kwargs d)]
       in deepcopy limit h2 obj)"

subsection \<open>What a Data instance holds\<close>

text \<open>
  The four attributes of an instance read through the heap: the data array, the axis
  arrays, and the elements of the two lists.  There is such a view when \<open>data\<close> is an
  ndarray, \<open>axes\<close> a list of ndarrays, and \<open>names\<close> and \<open>units\<close> are lists of strings,
  integers or \<open>None\<close>.
\<close>

record data_view =
  dv_data :: ndarray
  dv_axes :: "ndarray list"
  dv_names :: "pyval list"
  dv_units :: "pyval list"

definition array_at :: "heap \<Rightarrow> pyval \<Rightarrow> ndarray option" where
  "array_at h v = (case deref h v of Some (OArray a) \<Rightarrow> Some a | _ \<Rightarrow> None)"

definition view_of :: "heap \<Rightarrow> (string \<times> pyval) list \<Rightarrow> data_view option" where
  "view_of h d =
     (case (map_of d ''data'', map_of d ''axes'', map_of d ''names'', map_of d ''units'') of
        (Some dv, Some av, Some nv, Some uv) \<Rightarrow>
          (case (deref h dv, deref h av, deref h nv, deref h uv) of
             (Some (OArray arr), Some (OList axs), Some (OList ns), Some (OList us)) \<Rightarrow>
               (case those (map (array_at h) axs) of
                  Some arrs \<Rightarrow>
                    if list_all is_atom ns \<and> list_all is_atom us
                    then Some \<lparr>dv_data = arr, dv_axes = arrs, dv_names = ns, dv_units = us\<rparr>
                    else None
                | None \<Rightarrow> None)
           | _ \<Rightarrow> None)
      | _ \<Rightarrow> None)"

text \<open>
  The invariant of the specification: as many axes, names and units as the data array
  has dimensions, and every axis as long as the dimension it describes.
\<close>

definition data_invariant :: "data_view \<Rightarrow> bool" where
  "data_invariant v \<longleftrightarrow>
     length (shape (dv_data v)) = length (dv_axes v) \<and>
     length (dv_axes v) = length (dv_names v) \<and>
     length (dv_names v) = length (dv_units v) \<and>
     list_all2 (\<lambda>a n. np_len a = Inr n) (dv_axes v) (shape (dv_data v))"

text \<open>
  A valid instance, as the constructor builds it: the four attributes in the order of
  their assignment, of the types above, names and units being strings, the invariant
  holding.
\<close>

definition valid_data :: "heap \<Rightarrow> pyval \<Rightarrow> bool" where
  "valid_data h d =
     (case deref h d of
        Some (OInst dict) \<Rightarrow>
          map fst dict = [''data'', ''axes'', ''names'', ''units''] \<and>
          (case view_of h dict of
             Some v \<Rightarrow>
               data_invariant v \<and> wf_ndarray (dv_data v) \<and> list_all wf_ndarray (dv_axes v) \<and>
               list_all is_str (dv_names v) \<and> list_all is_str (dv_units v)
           | None \<Rightarrow> False)
      | _ \<Rightarrow> False)"

text \<open>
  The equality of the specification on two views: the data arrays equal as
  \<open>np.array_equal\<close> has it, the axes pairwise of one shape and with equal elements, and
  the same names and units.
\<close>

definition view_eq :: "data_view \<Rightarrow> data_view \<Rightarrow> bool" where
  "view_eq v w \<longleftrightarrow>
     np_array_equal (dv_data v) (dv_data w) \<and>
     list_all2 (\<lambda>a b. shape a = shape b) (dv_axes v) (dv_axes w) \<and>
     list_all2 (\<lambda>a b. list_all2 scalar_eq (elems a) (elems b)) (dv_axes v) (dv_axes w) \<and>
     dv_names v = dv_names w \<and> dv_units v = dv_units w"

fun is_nan :: "scalar \<Rightarrow> bool" where
  "is_nan (FloatV NaN) = True"
| "is_nan _ = False"

definition nan_free :: "data_view \<Rightarrow> bool" where
  "nan_free v \<longleftrightarrow>
     list_all (\<lambda>x. \<not> is_nan x) (elems (dv_data v)) \<and>
     list_all (\<lambda>a. list_all (\<lambda>x. \<not> is_nan x) (elems a)) (dv_axes v)"

text \<open>
  The objects reachable from an address: the object itself and whatever the values it
  holds refer to.
\<close>

fun val_refs :: "pyval \<Rightarrow> nat set" where
  "val_refs (PRef a) = {a}"
| "val_refs _ = {}"

fun refs_of :: "pyobj \<Rightarrow> nat set" where
  "refs_of (OArray arr) = {}"
| "refs_of (OList xs) = (\<Union>x \<in> set xs. val_refs x)"
| "refs_of (OInst d) = (\<Union>x \<in> set d. val_refs (snd x))"

inductive reach :: "heap \<Rightarrow> nat \<Rightarrow> nat \<Rightarrow> bool" for h :: heap where
  reach_self: "a < length h \<Longrightarrow> reach h a a"
| reach_step: "reach h a b \<Longrightarrow> c \<in> refs_of (h ! b) \<Longrightarrow> c < length h \<Longrightarrow> reach h a c"

text \<open>
  What a deep copy adds to the heap: the new heap is the old one followed by new
  objects; the value returned and every new object refer to new objects only.
\<close>

definition fresh_ext :: "heap \<Rightarrow> pyval list \<Rightarrow> heap \<Rightarrow> bool" where
  "fresh_ext h rs h' \<longleftrightarrow>
     (\<exists>ys. h' = h @ ys \<and>
        (\<forall>r \<in> set rs. val_refs r \<subseteq> {length h ..< length h'}) \<and>
        (\<forall>ob \<in> set ys. refs_of ob \<subseteq> {length h ..< length h'}))"

text \<open>
  What the specification says \<open>get\<close> returns after the batches \<open>ds\<close> went into a
  buffer of capacity \<open>L\<close>: nothing appended gives \<open>np.array([])\<close>; otherwise the last
  \<open>min (num_records ds) L\<close> records of all the batches laid end to end, oldest first,
  as a float64 array.
\<close>

definition last_records :: "int \<Rightarrow> nat list \<Rightarrow> ndarray list \<Rightarrow> ndarray" where
  "last_records L tsh ds =
     (if num_records ds = 0 then np_array_empty
      else
        let k = min (num_records ds) (nat L)
        in \<lparr>dtype = Float64, shape = k # tsh,
             elems = lastn (k * prod_list tsh) (all_elems ds)\<rparr>)"

section \<open>Lemmas about the numpy operations\<close>

lemma concat_chunks: "length xs = k * n \<Longrightarrow> concat (chunks k n xs) = xs"
  by (induction k arbitrary: xs) auto

lemma length_chunk: "x \<in> set (chunks k n xs) \<Longrightarrow> length xs = k * n \<Longrightarrow> length x = n"
  by (induction k arbitrary: xs) auto

lemma bcast_data_same: "length xs = prod_list s \<Longrightarrow> bcast_data s s xs = xs"
proof (induction s arbitrary: xs)
  case Nil
  then show ?case by simp
next
  case (Cons a s)
  have "map (bcast_data s s) (chunks a (prod_list s) xs) = chunks a (prod_list s) xs"
    using Cons by (intro map_idI) (auto dest: length_chunk)
  then show ?case using Cons.prems by (simp add: concat_chunks)
qed

lemma strip_ones_short: "length ss \<le> k \<Longrightarrow> strip_ones k ss = ss"
  by (cases ss) auto

lemma broadcast_to_same: "length xs = prod_list s \<Longrightarrow> broadcast_to s s xs = Some xs"
  by (simp add: broadcast_to_def strip_ones_short bcast_data_same list_all2_same)

lemma np_setslice_same:
  assumes "shape dst = n # t" "shape src = (slice_stop n e - slice_start n s) # t"
    and "wf_ndarray src"
  shows "np_setslice dst s e src =
     Inr (dst\<lparr>elems := take (slice_start n s * prod_list t) (elems dst)
                        @ map (astype (dtype dst)) (elems src)
                        @ drop ((slice_start n s + (slice_stop n e - slice_start n s)) * prod_list t) (elems dst)\<rparr>)"
  using assms by (simp add: np_setslice_def Let_def wf_ndarray_def broadcast_to_same)

lemma clip_index_neg: "0 < l \<Longrightarrow> clip_index n (- int l) = n - l"
  by (auto simp: clip_index_def)

lemma clip_index_pos: "clip_index n (int l) = min l n"
  by (auto simp: clip_index_def)

lemma append_alloc:
  assumes "shape d = n # tsh" "0 < n" "rb_data rb = None"
    "np_empty mem ((map int (shape d))[0 := rb_length rb]) = Inr st"
  shows "RingBuffer_append mem rb d = RingBuffer_append mem (rb\<lparr>rb_data := Some st\<rparr>) d"
  using assms by (simp add: RingBuffer_append_def np_len_def)

lemma append_truncate:
  assumes "shape d = n # tsh" "rb_length rb = int L" "0 < L" "L < n" "rb_data rb = Some st"
  shows "RingBuffer_append mem rb d =
         RingBuffer_append mem rb (np_getslice d (Some (- rb_length rb)) None)"
proof -
  let ?d = "np_getslice d (Some (- rb_length rb)) None"
  have s: "shape ?d = L # tsh"
    using assms
    by (simp add: np_getslice_def Let_def slice_start_def slice_stop_def clip_index_neg)
  show ?thesis
    unfolding RingBuffer_append_def
    using assms s by (simp add: np_len_def Let_def cong: sum.case_cong)
qed

lemma append_nowrap:
  assumes "rb_data rb = Some st" "shape st = L # tsh" "rb_length rb = int L"
    "rb_idx rb = int i" "shape d = n # tsh" "wf_ndarray d" "0 < n" "i + n < L"
  shows "RingBuffer_append mem rb d =
     Inr (rb\<lparr>rb_data := Some (st\<lparr>elems := take (i * prod_list tsh) (elems st)
                        @ map (astype (dtype st)) (elems d)
                        @ drop ((i + n) * prod_list tsh) (elems st)\<rparr>),
             rb_idx := int (i + n)\<rparr>)"
proof -
  have a: "slice_start L (Some (int i)) = i" "slice_stop L (Some (int i + int n)) = i + n"
    using assms(8) by (auto simp: slice_start_def slice_stop_def clip_index_def)
  have "np_setslice st (Some (int i)) (Some (int i + int n)) d = 
     Inr (st\<lparr>elems := take (i * prod_list tsh) (elems st)
                        @ map (astype (dtype st)) (elems d)
                        @ drop ((i + n) * prod_list tsh) (elems st)\<rparr>)"
    using np_setslice_same[of st L tsh d "Some (int i + int n)" "Some (int i)"] assms a
    by simp
  then show ?thesis
    using assms by (simp add: RingBuffer_append_def np_len_def Let_def)
qed

lemma mult_le_mono1': "(a::nat) \<le> b \<Longrightarrow> a * c \<le> b * c"
  by simp

lemma drop_append_le: "k \<le> length xs \<Longrightarrow> drop k (xs @ ys) = drop k xs @ ys"
  by simp

lemma append_wrap:
  assumes "rb_data rb = Some st" "shape st = L # tsh" "rb_length rb = int L"
    "rb_idx rb = int i" "shape d = n # tsh" "wf_ndarray d" "0 < n" "L \<le> i + n" "n \<le> L" "i < L"
    "wf_ndarray st"
  shows "RingBuffer_append mem rb d =
     Inr (rb\<lparr>rb_data := Some (st\<lparr>elems := 
                 map (astype (dtype st)) (drop ((L - i) * prod_list tsh) (elems d))
                 @ drop ((i + n - L) * prod_list tsh) (take (i * prod_list tsh) (elems st))
                 @ map (astype (dtype st)) (take ((L - i) * prod_list tsh) (elems d))\<rparr>),
             rb_full := True,
             rb_idx := int (i + n - L)\<rparr>)"
proof -
  let ?rs = "prod_list tsh"
  let ?l1 = "L - i"
  let ?l2 = "i + n - L"
  let ?d1 = "np_getslice d None (Some (int L - int i))"
  let ?d2 = "np_getslice d (Some (int L - int i)) None"
  have il: "int L - int i = int ?l1" using assms by simp
  have len: "length (elems d) = n * ?rs" "length (elems st) = L * ?rs"
    using assms by (simp_all add: wf_ndarray_def)
  have le1: "?l1 * ?rs \<le> n * ?rs" using assms by (intro mult_le_mono1') simp
  have ci: "clip_index n (int L - int i) = ?l1" "clip_index L (- (int L - int i)) = i"
    "clip_index L (int n - (int L - int i)) = ?l2"
    using assms by (auto simp: clip_index_def)
  have d1: "shape ?d1 = ?l1 # tsh" "elems ?d1 = take (?l1 * ?rs) (elems d)" 
    using assms ci
    by (simp_all add: np_getslice_def Let_def slice_start_def slice_stop_def)
  have wf1: "wf_ndarray ?d1"
    using d1 le1 len by (simp add: wf_ndarray_def)
  have d2: "shape ?d2 = ?l2 # tsh" "elems ?d2 = drop (?l1 * ?rs) (elems d)" 
    using assms len ci
    by (simp_all add: np_getslice_def Let_def slice_start_def slice_stop_def
        diff_mult_distrib)
  have "n - ?l1 = ?l2" using assms by simp
  then have "(n - ?l1) * ?rs = ?l2 * ?rs" by simp
  then have l2: "n * ?rs - ?l1 * ?rs = ?l2 * ?rs" by (simp only: diff_mult_distrib)
  have wf2: "wf_ndarray ?d2"
    using d2 len l2 by (simp add: wf_ndarray_def)
  have a: "slice_start L (Some (- (int L - int i))) = i" "slice_stop L None = L"
    using assms ci by (auto simp: slice_start_def slice_stop_def)
  let ?st1 = "st\<lparr>elems := take (i * ?rs) (elems st)
                        @ map (astype (dtype st)) (elems ?d1)
                        @ drop ((i + (L - i)) * ?rs) (elems st)\<rparr>"
  have s1: "np_setslice st (Some (- (int L - int i))) None ?d1 = Inr ?st1"
    using np_setslice_same[of st L tsh ?d1 None "Some (- (int L - int i))"] assms a d1 wf1
    by simp
  have b: "slice_start L None = 0" "slice_stop L (Some (int n - (int L - int i))) = ?l2"
    using assms ci by (auto simp: slice_start_def slice_stop_def)
  have s2: "np_setslice ?st1 None (Some (int n - (int L - int i))) ?d2 = 
      Inr (?st1\<lparr>elems := take (0 * ?rs) (elems ?st1)
                        @ map (astype (dtype ?st1)) (elems ?d2)
                        @ drop ((0 + (?l2 - 0)) * ?rs) (elems ?st1)\<rparr>)"
    using np_setslice_same[of ?st1 L tsh ?d2 "Some (int n - (int L - int i))" None] assms b d2 wf2
    by simp
  have le2: "?l2 * ?rs \<le> i * ?rs" using assms by (intro mult_le_mono1') simp
  have e: "drop (?l2 * ?rs) (take (i * ?rs) (elems st) @ map (astype (dtype st)) (elems ?d1))
     = drop (?l2 * ?rs) (take (i * ?rs) (elems st)) @ map (astype (dtype st)) (elems ?d1)"
  proof (rule drop_append_le)
    have "i * ?rs \<le> L * ?rs" using assms by (intro mult_le_mono1') simp
    then have "length (take (i * ?rs) (elems st)) = i * ?rs"
      unfolding length_take len(2) by (rule min_absorb2)
    then show "?l2 * ?rs \<le> length (take (i * ?rs) (elems st))"
      using le2 by (simp only:)
  qed
  show ?thesis
    unfolding RingBuffer_append_def
    using assms s1 s2 len d1 d2 e by (simp add: np_len_def Let_def)
qed

lemma lastn_all: "length xs \<le> k \<Longrightarrow> lastn k xs = xs"
  by (simp add: lastn_def)

lemma lastn_lastn_append: "lastn k (lastn k xs @ ys) = lastn k (xs @ ys)"
proof -
  have "length xs + length ys - (length xs - k + k) + (length xs - k) = length xs + length ys - k"
    by arith
  then show ?thesis by (simp add: lastn_def)
qed

lemma lastn_append_lastn: "lastn k (xs @ lastn k ys) = lastn k (xs @ ys)"
  by (cases "k \<le> length ys") (simp_all add: lastn_def)

lemma ring_nowrap_notfull:
  assumes "I + N \<le> length E" "length B = N"
  shows "take (I + N) (take I E @ B @ drop (I + N) E) = lastn (length E) (take I E @ B)"
  using assms by (simp add: lastn_def)

lemma ring_nowrap_full:
  assumes "I + N \<le> length E" "length B = N"
  shows "drop (I + N) (take I E @ B @ drop (I + N) E) @ take (I + N) (take I E @ B @ drop (I + N) E)
     = lastn (length E) ((drop I E @ take I E) @ B)"
  using assms by (simp add: lastn_def add.commute)

lemma ring_wrap_view:
  assumes "length B = N" "I \<le> length E" "N \<le> length E" "length E \<le> I + N"
  shows "drop (I + N - length E) (drop (length E - I) B @ drop (I + N - length E) (take I E) @ take (length E - I) B)
       @ take (I + N - length E) (drop (length E - I) B @ drop (I + N - length E) (take I E) @ take (length E - I) B)
     = drop (I + N - length E) (take I E) @ B"
  using assms by simp

lemma ring_wrap_notfull:
  assumes "length B = N" "I \<le> length E" "N \<le> length E" "length E \<le> I + N"
  shows "lastn (length E) (take I E @ B) = drop (I + N - length E) (take I E) @ B"
  using assms by (simp add: lastn_def)

lemma ring_wrap_full:
  assumes "length B = N" "I \<le> length E" "N \<le> length E" "length E \<le> I + N"
  shows "lastn (length E) ((drop I E @ take I E) @ B) = drop (I + N - length E) (take I E) @ B"
  using assms by (simp add: lastn_def add.commute)

lemma rb_contents_Some:
  assumes "rb_data rb = Some st" "shape st = L # tsh" "rb_idx rb = int i"
  shows "rb_contents rb =
     (if rb_full rb
      then drop (i * prod_list tsh) (elems st) @ take (i * prod_list tsh) (elems st)
      else take (i * prod_list tsh) (elems st))"
  using assms by (simp add: rb_contents_def Let_def)

lemma scalar_dtype_astype: "scalar_dtype (astype t x) = t"
  by (cases t; cases x) simp_all

lemma astype_id: "scalar_dtype x = t \<Longrightarrow> astype t x = x"
  by (cases t; cases x) simp_all

lemma list_all_take: "list_all P xs \<Longrightarrow> list_all P (take n xs)"
  by (auto simp: list_all_iff dest: in_set_takeD)

lemma list_all_drop: "list_all P xs \<Longrightarrow> list_all P (drop n xs)"
  by (auto simp: list_all_iff dest: in_set_dropD)

lemma list_all_astype: "list_all (\<lambda>x. scalar_dtype x = t) (map (astype t) xs)"
  by (simp add: list_all_iff scalar_dtype_astype)

lemma append_step_fit:
  assumes ok: "rb_ok tsh rb" and st: "rb_data rb = Some st"
    and d: "shape d = n # tsh" "wf_ndarray d" "0 < n" "int n \<le> rb_length rb"
  shows "\<exists>rb'. RingBuffer_append mem rb d = Inr rb' \<and> rb_ok tsh rb' \<and>
      rb_length rb' = rb_length rb \<and> rb_data rb' \<noteq> None \<and>
      (rb_full rb' \<longleftrightarrow> rb_full rb \<or> rb_length rb \<le> rb_idx rb + int n) \<and>
      rb_idx rb' = (if rb_idx rb + int n < rb_length rb then rb_idx rb + int n
                    else rb_idx rb + int n - rb_length rb) \<and>
      rb_count rb' = min (nat (rb_length rb)) (rb_count rb + n) \<and>
      rb_contents rb' =
        lastn (nat (rb_length rb) * prod_list tsh)
          (rb_contents rb @ map (astype Float64) (elems d))"
proof -
  have rng: "0 \<le> rb_idx rb" "rb_idx rb < rb_length rb"
    using ok by (simp_all add: rb_ok_def)
  define L where "L = nat (rb_length rb)"
  define i where "i = nat (rb_idx rb)"
  have Li: "rb_length rb = int L" "rb_idx rb = int i" "i < L"
    using rng by (simp_all add: L_def i_def)
  have nL: "n \<le> L" using d Li by simp
  have sto: "dtype st = Float64" "shape st = L # tsh" "wf_ndarray st"
    using ok st Li by (simp_all add: rb_ok_def)
  have tyE: "list_all (\<lambda>x. scalar_dtype x = Float64) (elems st)"
    using ok st by (auto simp: rb_ok_def well_typed_def)
  have tyB: "list_all (\<lambda>x. scalar_dtype x = Float64) (map (astype Float64) (elems d))"
    by (rule list_all_astype)
  define R where "R = prod_list tsh"
  define E where "E = elems st"
  define B where "B = map (astype Float64) (elems d)"
  define I where "I = i * R"
  define N where "N = n * R"
  have lenE: "length E = L * R" using sto by (simp add: wf_ndarray_def E_def R_def)
  have lenB: "length B = N" using d by (simp add: wf_ndarray_def B_def R_def N_def)
  have IL: "I \<le> length E" unfolding I_def lenE using Li by (intro mult_le_mono1') simp
  have NL: "N \<le> length E" unfolding N_def lenE using nL by (intro mult_le_mono1') 
  have cont: "rb_contents rb = (if rb_full rb then drop I E @ take I E else take I E)"
    using rb_contents_Some[OF st sto(2) Li(2)] by (simp only: I_def E_def R_def)
  show ?thesis
  proof (cases "i + n < L")
    case True
    have INL: "I + N \<le> length E" 
    proof -
      have "(i + n) * R \<le> L * R" using True by (intro mult_le_mono1') simp
      then show ?thesis by (simp only: I_def N_def lenE add_mult_distrib)
    qed
    define E' where "E' = take I E @ B @ drop (I + N) E"
    define rb' where "rb' = rb\<lparr>rb_data := Some (st\<lparr>elems := E'\<rparr>), rb_idx := int (i + n)\<rparr>"
    have ap: "RingBuffer_append mem rb d = Inr rb'"
      using append_nowrap[OF st sto(2) Li(1) Li(2) d(1) d(2) d(3) True, of mem] sto(1)
      by (simp only: I_def N_def E_def B_def R_def add_mult_distrib E'_def rb'_def)
    have lenE': "length E' = length E" using IL INL lenB by (simp add: E'_def)
    have sel: "rb_data rb' = Some (st\<lparr>elems := E'\<rparr>)" "rb_idx rb' = int (i + n)"
      "rb_full rb' = rb_full rb" "rb_length rb' = int L" "shape (st\<lparr>elems := E'\<rparr>) = L # tsh"
      "elems (st\<lparr>elems := E'\<rparr>) = E'" "dtype (st\<lparr>elems := E'\<rparr>) = Float64"
      using Li sto by (simp_all add: rb'_def)
    have "list_all (\<lambda>x. scalar_dtype x = Float64) E'"
      using tyE tyB unfolding E'_def E_def B_def
      by (simp add: list_all_take list_all_drop)
    then have ok': "rb_ok tsh rb'"
      using True sel lenE' lenE by (simp add: rb_ok_def wf_ndarray_def well_typed_def R_def)
    have cnt: "rb_count rb' = min L (rb_count rb + n)"
      using Li True sel by (simp add: rb_count_def nat_int_add)
    have cont': "rb_contents rb' = (if rb_full rb then drop (I + N) E' @ take (I + N) E'
        else take (I + N) E')"
      using rb_contents_Some[OF sel(1) sel(5) sel(2)]
      by (simp only: sel I_def N_def R_def add_mult_distrib)
    have "rb_contents rb' = lastn (length E) (rb_contents rb @ B)"
      unfolding cont' cont E'_def
      using ring_nowrap_notfull[OF INL lenB] ring_nowrap_full[OF INL lenB]
      by simp
    then show ?thesis using ap ok' cnt Li sel True unfolding lenE B_def R_def by simp
  next
    case False
    then have wrap: "L \<le> i + n" by simp
    have INL: "length E \<le> I + N" 
    proof -
      have "L * R \<le> (i + n) * R" using wrap by (intro mult_le_mono1') 
      then show ?thesis by (simp only: I_def N_def lenE add_mult_distrib)
    qed
    have l1: "(L - i) * R = length E - I" by (simp add: lenE I_def diff_mult_distrib)
    have l2: "(i + n - L) * R = I + N - length E"
      by (simp add: lenE I_def N_def diff_mult_distrib add_mult_distrib)
    define L1 where "L1 = length E - I"
    define L2 where "L2 = I + N - length E"
    define E' where "E' = drop L1 B @ drop L2 (take I E) @ take L1 B"
    define rb' where "rb' = rb\<lparr>rb_data := Some (st\<lparr>elems := E'\<rparr>), rb_full := True,
             rb_idx := int (i + n - L)\<rparr>"
    have ap: "RingBuffer_append mem rb d = Inr rb'"
      using append_wrap[OF st sto(2) Li(1) Li(2) d(1) d(2) d(3) wrap nL Li(3) sto(3), of mem] sto(1)
      unfolding l1[unfolded R_def] l2[unfolded R_def]
      by (simp only: I_def E_def B_def R_def take_map drop_map E'_def rb'_def L1_def L2_def)
    have lenE': "length E' = length E" using IL INL NL lenB by (simp add: E'_def L1_def L2_def)
    have sel: "rb_data rb' = Some (st\<lparr>elems := E'\<rparr>)" "rb_idx rb' = int (i + n - L)"
      "rb_full rb'" "rb_length rb' = int L" "shape (st\<lparr>elems := E'\<rparr>) = L # tsh"
      "elems (st\<lparr>elems := E'\<rparr>) = E'" "dtype (st\<lparr>elems := E'\<rparr>) = Float64"
      using Li sto by (simp_all add: rb'_def)
    have "list_all (\<lambda>x. scalar_dtype x = Float64) E'"
      using tyE tyB unfolding E'_def E_def B_def
      by (simp add: list_all_take list_all_drop)
    then have ok': "rb_ok tsh rb'"
      using wrap nL Li(3) sel lenE' lenE
      by (simp add: rb_ok_def wf_ndarray_def well_typed_def R_def)
    have cnt: "rb_count rb' = min L (rb_count rb + n)"
      using Li wrap sel by (simp add: rb_count_def)
    have cont': "rb_contents rb' = drop L2 E' @ take L2 E'"
      using rb_contents_Some[OF sel(1) sel(5) sel(2)] sel(3)
      by (simp only: sel l2[unfolded R_def] L2_def if_True)
    have "rb_contents rb' = lastn (length E) (rb_contents rb @ B)"
      unfolding cont' cont E'_def L1_def L2_def
      using ring_wrap_view[OF lenB IL NL INL] ring_wrap_notfull[OF lenB IL NL INL]
       ring_wrap_full[OF lenB IL NL INL]
      by simp
    then show ?thesis using ap ok' cnt Li sel wrap unfolding lenE B_def R_def by simp
  qed
qed

lemma rb_contents_length:
  assumes "rb_ok tsh rb"
  shows "length (rb_contents rb) = rb_count rb * prod_list tsh"
proof (cases "rb_data rb")
  case None
  then show ?thesis using assms by (simp add: rb_contents_def rb_count_def rb_ok_def)
next
  case (Some st)
  have rng: "0 \<le> rb_idx rb" "rb_idx rb < rb_length rb"
    using assms by (simp_all add: rb_ok_def)
  define L where "L = nat (rb_length rb)"
  define i where "i = nat (rb_idx rb)"
  have Li: "rb_length rb = int L" "rb_idx rb = int i" "i < L"
    using rng by (simp_all add: L_def i_def)
  have sto: "shape st = L # tsh" "length (elems st) = L * prod_list tsh"
    using assms Some Li by (simp_all add: rb_ok_def wf_ndarray_def)
  have "i * prod_list tsh \<le> L * prod_list tsh" using Li by (intro mult_le_mono1') simp
  then have "min (L * prod_list tsh) (i * prod_list tsh) = i * prod_list tsh"
    by (rule min_absorb2)
  then show ?thesis
    using rb_contents_Some[OF Some sto(1) Li(2)] sto(2) Li
    by (simp add: rb_count_def)
qed

lemma rb_count_le: "rb_ok tsh rb \<Longrightarrow> rb_count rb \<le> nat (rb_length rb)"
  by (auto simp: rb_count_def rb_ok_def)

lemma append_step_alloc:
  assumes ok: "rb_ok tsh rb" and st: "rb_data rb = Some st"
    and d: "shape d = n # tsh" "wf_ndarray d" "0 < n"
  shows "\<exists>rb'. RingBuffer_append mem rb d = Inr rb' \<and> rb_ok tsh rb' \<and>
      rb_length rb' = rb_length rb \<and> rb_data rb' \<noteq> None \<and>
      (rb_full rb' \<longleftrightarrow> rb_full rb \<or> rb_length rb \<le> rb_idx rb + int n) \<and>
      rb_idx rb' = (if rb_idx rb + int n < rb_length rb then rb_idx rb + int n
                    else rb_idx rb + min (int n) (rb_length rb) - rb_length rb) \<and>
      rb_count rb' = min (nat (rb_length rb)) (rb_count rb + n) \<and>
      rb_contents rb' =
        lastn (nat (rb_length rb) * prod_list tsh)
          (rb_contents rb @ map (astype Float64) (elems d))"
proof (cases "int n \<le> rb_length rb")
  case True
  show ?thesis
    using append_step_fit[OF ok st d True, of mem] True by (auto simp: min_def)
next
  case False
  have rng: "0 \<le> rb_idx rb" "rb_idx rb < rb_length rb"
    using ok by (simp_all add: rb_ok_def)
  define L where "L = nat (rb_length rb)"
  have L: "rb_length rb = int L" "0 < L" "L < n" using rng False by (simp_all add: L_def)
  define R where "R = prod_list tsh"
  define d' where "d' = np_getslice d (Some (- rb_length rb)) None"
  have lenB: "length (elems d) = n * R" using d by (simp add: wf_ndarray_def R_def)
  have "(n - L) * R + L * R = n * R" using L by (simp flip: add_mult_distrib)
  then have lenD: "length (elems d) - L * R = (n - L) * R" "length (elems d) - (n - L) * R = L * R"
    using lenB by simp_all
  have sh: "shape d' = L # tsh"
    using d L
    by (simp add: d'_def np_getslice_def Let_def slice_start_def slice_stop_def clip_index_neg)
  have el: "elems d' = lastn (L * R) (elems d)"
    using d L lenD
    by (simp add: d'_def np_getslice_def Let_def slice_start_def slice_stop_def clip_index_neg
        lastn_def R_def)
  have wf: "wf_ndarray d'"
    using sh el lenD by (simp add: wf_ndarray_def lastn_def R_def)
  have ap: "RingBuffer_append mem rb d = RingBuffer_append mem rb d'"
    unfolding d'_def using append_truncate[OF d(1) L(1) L(2) L(3) st] .
  have m: "map (astype Float64) (elems d') = lastn (L * R) (map (astype Float64) (elems d))"
    unfolding el by (simp add: lastn_def drop_map)
  have fit: "int L \<le> rb_length rb" using L by simp
  obtain rb' where r: "RingBuffer_append mem rb d' = Inr rb'" "rb_ok tsh rb'"
      "rb_length rb' = rb_length rb" "rb_data rb' \<noteq> None"
      "rb_full rb' \<longleftrightarrow> rb_full rb \<or> rb_length rb \<le> rb_idx rb + int L"
      "rb_idx rb' = (if rb_idx rb + int L < rb_length rb then rb_idx rb + int L
                    else rb_idx rb + int L - rb_length rb)"
      "rb_count rb' = min (nat (rb_length rb)) (rb_count rb + L)"
      "rb_contents rb' = lastn (nat (rb_length rb) * prod_list tsh)
          (rb_contents rb @ map (astype Float64) (elems d'))"
    using append_step_fit[OF ok st sh wf L(2) fit, of mem] by blast
  have c: "rb_contents rb' = lastn (L * R) (rb_contents rb @ map (astype Float64) (elems d))"
    using r(8) unfolding m L(1) R_def by (simp add: lastn_append_lastn)
  show ?thesis
    using r(1-7) c ap L rng unfolding R_def by (auto simp: min_def)
qed

lemma map_nat_int: "map (nat \<circ> int) xs = xs"
  by (induction xs) auto

lemma np_empty_ok:
  assumes "0 < L"
  shows "\<exists>st. np_empty mem ((map int (n # tsh))[0 := int L]) = Inr st \<and> dtype st = Float64 \<and>
     shape st = L # tsh \<and> wf_ndarray st \<and> well_typed st"
  using assms
  by (auto simp: np_empty_def wf_ndarray_def well_typed_def map_nat_int list_all_iff)

lemma append_step:
  assumes ok: "rb_ok tsh rb" and d: "shape d = n # tsh" "wf_ndarray d" "0 < n"
  shows "\<exists>rb'. RingBuffer_append mem rb d = Inr rb' \<and> rb_ok tsh rb' \<and>
      rb_length rb' = rb_length rb \<and> rb_data rb' \<noteq> None \<and>
      (rb_full rb' \<longleftrightarrow> rb_full rb \<or> rb_length rb \<le> rb_idx rb + int n) \<and>
      rb_idx rb' = (if rb_idx rb + int n < rb_length rb then rb_idx rb + int n
                    else rb_idx rb + min (int n) (rb_length rb) - rb_length rb) \<and>
      rb_count rb' = min (nat (rb_length rb)) (rb_count rb + n) \<and>
      rb_contents rb' =
        lastn (nat (rb_length rb) * prod_list tsh)
          (rb_contents rb @ map (astype Float64) (elems d))"
proof (cases "rb_data rb")
  case (Some st)
  then show ?thesis using append_step_alloc[OF ok Some d] by simp
next
  case None
  have rng: "0 \<le> rb_idx rb" "rb_idx rb < rb_length rb" "\<not> rb_full rb" "rb_idx rb = 0"
    using ok None by (simp_all add: rb_ok_def)
  define L where "L = nat (rb_length rb)"
  have L: "rb_length rb = int L" "0 < L" using rng by (simp_all add: L_def)
  obtain st where st: "np_empty mem ((map int (shape d))[0 := rb_length rb]) = Inr st"
    "dtype st = Float64" "shape st = L # tsh" "wf_ndarray st" "well_typed st"
    using np_empty_ok[OF L(2), of mem n tsh] unfolding d(1) L(1) by blast
  define rb0 where "rb0 = rb\<lparr>rb_data := Some st\<rparr>"
  have ap: "RingBuffer_append mem rb d = RingBuffer_append mem rb0 d"
    unfolding rb0_def using append_alloc[OF d(1) d(3) None st(1)] .
  have sel: "rb_data rb0 = Some st" "rb_idx rb0 = rb_idx rb" "rb_length rb0 = rb_length rb"
    "rb_full rb0 = rb_full rb"
    by (simp_all add: rb0_def)
  have ok0: "rb_ok tsh rb0"
    using rng st L sel by (simp add: rb_ok_def)
  have c0: "rb_contents rb0 = rb_contents rb" "rb_count rb0 = rb_count rb"
    using sel rng None by (simp_all add: rb_contents_def rb_count_def)
  show ?thesis
    using append_step_alloc[OF ok0 sel(1) d, of mem] unfolding ap sel c0 .
qed

lemma append_empty: "shape d = 0 # t \<Longrightarrow> RingBuffer_append mem rb d = Inr rb"
  by (simp add: RingBuffer_append_def np_len_def)

lemma get_allocated:
  assumes ok: "rb_ok tsh rb" and st: "rb_data rb = Some st"
  shows "RingBuffer_get rb =
     (Inr \<lparr>dtype = Float64, shape = rb_count rb # tsh, elems = rb_contents rb\<rparr>, rb)"
proof -
  have rng: "0 \<le> rb_idx rb" "rb_idx rb < rb_length rb"
    using ok by (simp_all add: rb_ok_def)
  define L where "L = nat (rb_length rb)"
  define i where "i = nat (rb_idx rb)"
  have Li: "rb_length rb = int L" "rb_idx rb = int i" "i < L"
    using rng by (simp_all add: L_def i_def)
  have sto: "dtype st = Float64" "shape st = L # tsh" "wf_ndarray st"
    using ok st Li by (simp_all add: rb_ok_def)
  have ty: "list_all (\<lambda>x. scalar_dtype x = Float64) (elems st)"
    using ok st by (auto simp: rb_ok_def well_typed_def)
  define R where "R = prod_list tsh"
  have lenE: "length (elems st) = L * R" using sto by (simp add: wf_ndarray_def R_def)
  have ci: "clip_index L (int i) = i" using Li by (simp add: clip_index_def)
  have cast: "map (astype Float64) (elems st) = elems st"
    using ty by (intro map_idI) (auto simp: list_all_iff astype_id)
  have g1: "np_getslice st (Some (int i)) None =
      \<lparr>dtype = Float64, shape = (L - i) # tsh, elems = drop (i * R) (elems st)\<rparr>"
    using sto lenE ci
    by (simp add: np_getslice_def Let_def slice_start_def slice_stop_def R_def diff_mult_distrib)
  have g2: "np_getslice st None (Some (int i)) =
      \<lparr>dtype = Float64, shape = i # tsh, elems = take (i * R) (elems st)\<rparr>"
    using sto lenE ci
    by (simp add: np_getslice_def Let_def slice_start_def slice_stop_def R_def)
  have cc: "np_concatenate (np_getslice st (Some (int i)) None) (np_getslice st None (Some (int i)))
     = Inr \<lparr>dtype = Float64, shape = L # tsh, elems = drop (i * R) (elems st) @ take (i * R) (elems st)\<rparr>"
    unfolding g1 g2 using Li cast
    by (simp add: np_concatenate_def promote_def flip: drop_map take_map)
  show ?thesis
    using st Li sto cc g2 rb_contents_Some[OF st sto(2) Li(2)]
    by (simp add: RingBuffer_get_def rb_count_def R_def)
qed

lemma appends_valid:
  assumes "rb_ok tsh rb" "list_all (batch_ok tsh) ds"
  shows "\<exists>rb'. appends mem rb ds = Inr rb' \<and> rb_ok tsh rb' \<and>
      rb_length rb' = rb_length rb \<and>
      (rb_data rb' = None \<longleftrightarrow> rb_data rb = None \<and> num_records ds = 0) \<and>
      rb_count rb' = min (nat (rb_length rb)) (rb_count rb + num_records ds) \<and>
      rb_contents rb' =
        lastn (nat (rb_length rb) * prod_list tsh) (rb_contents rb @ all_elems ds)"
  using assms
proof (induction ds arbitrary: rb)
  case Nil
  then show ?case
    using rb_contents_length[OF Nil(1)] rb_count_le[OF Nil(1)]
    by (simp add: num_records_def all_elems_def lastn_all)
next
  case (Cons d ds)
  have bd: "batch_ok tsh d" and bds: "list_all (batch_ok tsh) ds" using Cons.prems by simp_all
  obtain n t where sh: "shape d = n # t" using bd by (cases "shape d") (auto simp: batch_ok_def)
  show ?case
  proof (cases "n = 0")
    case True
    have e: "elems d = []" using bd sh True by (simp add: batch_ok_def wf_ndarray_def)
    have ap: "RingBuffer_append mem rb d = Inr rb" using append_empty sh True by simp
    show ?thesis
      using Cons.IH[OF Cons.prems(1) bds] ap sh True e
      by (simp add: num_records_def all_elems_def)
  next
    case False
    then have n: "0 < n" and sh': "shape d = n # tsh" using bd sh by (simp_all add: batch_ok_def)
    have wf: "wf_ndarray d" using bd by (simp add: batch_ok_def)
    obtain rb1 where r: "RingBuffer_append mem rb d = Inr rb1" "rb_ok tsh rb1"
      "rb_length rb1 = rb_length rb" "rb_data rb1 \<noteq> None"
      "rb_count rb1 = min (nat (rb_length rb)) (rb_count rb + n)"
      "rb_contents rb1 = lastn (nat (rb_length rb) * prod_list tsh)
          (rb_contents rb @ map (astype Float64) (elems d))"
      using append_step[OF Cons.prems(1) sh' wf n, of mem] by blast
    obtain rb' where r': "appends mem rb1 ds = Inr rb'" "rb_ok tsh rb'"
      "rb_length rb' = rb_length rb1"
      "rb_data rb' = None \<longleftrightarrow> rb_data rb1 = None \<and> num_records ds = 0"
      "rb_count rb' = min (nat (rb_length rb1)) (rb_count rb1 + num_records ds)"
      "rb_contents rb' = lastn (nat (rb_length rb1) * prod_list tsh) (rb_contents rb1 @ all_elems ds)"
      using Cons.IH[OF r(2) bds] by (elim exE conjE) (rule that, assumption+)
    have c: "rb_contents rb' = lastn (nat (rb_length rb) * prod_list tsh)
        (rb_contents rb @ all_elems (d # ds))"
      using r'(6) unfolding r(6) r(3) lastn_lastn_append by (simp add: all_elems_def)
    have k: "rb_count rb' = min (nat (rb_length rb)) (rb_count rb + num_records (d # ds))"
      using r'(5) unfolding r(5) r(3) using sh by (simp add: num_records_def min_def)
    show ?thesis
      using r(1) r(3) r(4) r'(1-4) c k n sh by (auto simp: num_records_def)
  qed
qed

lemma bitlen_nat_le: "n < 2 ^ k \<Longrightarrow> bitlen_nat n \<le> k"
proof (induction k arbitrary: n)
  case 0
  then show ?case by (simp add: bitlen_nat.simps)
next
  case (Suc k)
  have "n div 2 < 2 ^ k" using Suc.prems by auto
  from Suc.IH[OF this] show ?case by (subst bitlen_nat.simps) simp
qed

lemma round_f64_exact: "\<bar>n\<bar> < 2 ^ 53 \<Longrightarrow> round_f64 n = n"
proof -
  assume a: "\<bar>n\<bar> < 2 ^ 53"
  have "nat \<bar>n\<bar> < 2 ^ 53" using a by (simp add: nat_less_iff)
  then have "bitlen_nat (nat \<bar>n\<bar>) \<le> 53" by (rule bitlen_nat_le)
  then show ?thesis by (simp add: round_f64_def Let_def)
qed

lemma rb_ok_init: "0 < L \<Longrightarrow> rb_ok tsh (RingBuffer_init L)"
  by (simp add: rb_ok_def RingBuffer_init_def)

lemma lastn_shorter:
  assumes "length (lastn a xs) = b"
  shows "lastn b xs = lastn a xs"
  using assms by (auto simp: lastn_def)

lemma get_after_appends:
  assumes "0 < L" "list_all (batch_ok tsh) ds"
  shows "\<exists>rb. appends mem (RingBuffer_init L) ds = Inr rb \<and> rb_ok tsh rb \<and> rb_length rb = L \<and>
      rb_count rb = min (num_records ds) (nat L) \<and>
      RingBuffer_get rb = (Inr (last_records L tsh ds), rb)"
proof -
  obtain rb where r: "appends mem (RingBuffer_init L) ds = Inr rb" "rb_ok tsh rb"
      "rb_length rb = rb_length (RingBuffer_init L)"
      "rb_data rb = None \<longleftrightarrow> rb_data (RingBuffer_init L) = None \<and> num_records ds = 0"
      "rb_count rb = min (nat (rb_length (RingBuffer_init L)))
          (rb_count (RingBuffer_init L) + num_records ds)"
      "rb_contents rb = lastn (nat (rb_length (RingBuffer_init L)) * prod_list tsh)
          (rb_contents (RingBuffer_init L) @ all_elems ds)"
    using appends_valid[OF rb_ok_init[OF assms(1)] assms(2), of mem]
    by (elim exE conjE) (rule that, assumption+)
  have i: "rb_length (RingBuffer_init L) = L" "rb_data (RingBuffer_init L) = None"
    "rb_count (RingBuffer_init L) = 0" "rb_contents (RingBuffer_init L) = []"
    by (simp_all add: RingBuffer_init_def rb_count_def rb_contents_def)
  have cnt: "rb_count rb = min (num_records ds) (nat L)"
    using r(5) unfolding i by (simp add: min.commute)
  have cont: "rb_contents rb = lastn (nat L * prod_list tsh) (all_elems ds)"
    using r(6) unfolding i by simp
  have g: "RingBuffer_get rb = (Inr (last_records L tsh ds), rb)"
  proof (cases "num_records ds = 0")
    case True
    then have "rb_data rb = None" using r(4) i by simp
    then show ?thesis using True by (simp add: RingBuffer_get_def last_records_def)
  next
    case False
    then obtain st where st: "rb_data rb = Some st" using r(4) i by auto
    have "length (lastn (nat L * prod_list tsh) (all_elems ds)) = rb_count rb * prod_list tsh"
      using rb_contents_length[OF r(2)] cont by simp
    then have "lastn (rb_count rb * prod_list tsh) (all_elems ds) = rb_contents rb"
      unfolding cont by (rule lastn_shorter)
    then show ?thesis
      using get_allocated[OF r(2) st] False cnt by (simp add: last_records_def Let_def)
  qed
  show ?thesis using r(1) r(2) r(3) i(1) cnt g by simp
qed

section \<open>RingBuffer: the claims\<close>

text \<open>
  Claim C1.  For a buffer constructed with a positive capacity \<open>L\<close> and any sequence of
  shape-consistent batches (each with a leading axis, non-empty ones with records of one
  shape \<open>tsh\<close>), every \<open>append\<close> returns, and \<open>get\<close> on the resulting buffer returns
  the last \<open>min (num_records ds) L\<close> records appended, oldest first, as stored (float64),
  and leaves the buffer as it was.  The length of the returned array is \<open>rb_length\<close>
  when \<open>rb_full\<close> holds and \<open>rb_idx\<close> otherwise.
\<close>

theorem get_returns_last_records:
  assumes "0 < L" "list_all (batch_ok tsh) ds"
  shows "\<exists>rb r. appends mem (RingBuffer_init L) ds = Inr rb \<and>
      RingBuffer_get rb = (Inr r, rb) \<and> r = last_records L tsh ds \<and>
      np_len r = Inr (nat (if rb_full rb then rb_length rb else rb_idx rb))"
proof -
  obtain rb where r: "appends mem (RingBuffer_init L) ds = Inr rb" "rb_ok tsh rb"
      "rb_length rb = L" "rb_count rb = min (num_records ds) (nat L)"
      "RingBuffer_get rb = (Inr (last_records L tsh ds), rb)"
    using get_after_appends[OF assms, of mem] by (elim exE conjE) (rule that, assumption+)
  have "np_len (last_records L tsh ds) = Inr (rb_count rb)"
    using r(4) by (simp add: last_records_def np_len_def np_array_empty_def Let_def)
  then show ?thesis using r by (auto simp: rb_count_def split: if_splits)
qed

theorem get_returns_last_records_witness:
  "(0::int) < 5 \<and>
   list_all (batch_ok [])
     [\<lparr>dtype = Int64, shape = [3], elems = [IntV 1, IntV 2, IntV 3]\<rparr>,
      \<lparr>dtype = Int64, shape = [4], elems = [IntV 4, IntV 5, IntV 6, IntV 7]\<rparr>] \<and>
   (\<exists>rb r. appends (\<lambda>i. Fin 0) (RingBuffer_init 5)
       [\<lparr>dtype = Int64, shape = [3], elems = [IntV 1, IntV 2, IntV 3]\<rparr>,
        \<lparr>dtype = Int64, shape = [4], elems = [IntV 4, IntV 5, IntV 6, IntV 7]\<rparr>] = Inr rb \<and>
      RingBuffer_get rb = (Inr r, rb) \<and>
      r = \<lparr>dtype = Float64, shape = [5],
            elems = [FloatV (Fin 3), FloatV (Fin 4), FloatV (Fin 5), FloatV (Fin 6),
                     FloatV (Fin 7)]\<rparr> \<and>
      np_len r = Inr (nat (if rb_full rb then rb_length rb else rb_idx rb)))"
proof -
  let ?ds = "[\<lparr>dtype = Int64, shape = [3], elems = [IntV 1, IntV 2, IntV 3]\<rparr>,
      \<lparr>dtype = Int64, shape = [4], elems = [IntV 4, IntV 5, IntV 6, IntV 7]\<rparr>]"
  have h1: "(0::int) < 5" by simp
  have h2: "list_all (batch_ok []) ?ds" by (simp add: batch_ok_def wf_ndarray_def)
  have e: "last_records 5 [] ?ds = \<lparr>dtype = Float64, shape = [5],
            elems = [FloatV (Fin 3), FloatV (Fin 4), FloatV (Fin 5), FloatV (Fin 6),
                     FloatV (Fin 7)]\<rparr>"
    by (simp add: last_records_def num_records_def all_elems_def lastn_def round_f64_exact)
  show ?thesis
    using h1 h2 get_returns_last_records[OF h1 h2, of "\<lambda>i. Fin 0"] unfolding e by simp
qed

text \<open>
  Claim C3.  Appending a batch of more records than the capacity keeps only the most
  recent \<open>rb_length\<close> records of the batch: whatever the buffer held, it is full
  afterwards and \<open>get\<close> returns exactly \<open>data[-length:]\<close> (as float64).  For a fresh
  buffer of capacity 5 and the batch \<open>[1,2,3,4,5,6]\<close> that is \<open>[2,3,4,5,6]\<close>.
\<close>

theorem oversized_append_keeps_tail:
  assumes "rb_ok tsh rb" "shape d = n # tsh" "wf_ndarray d" "rb_length rb < int n"
  shows "\<exists>rb'. RingBuffer_append mem rb d = Inr rb' \<and> rb_full rb' \<and>
     RingBuffer_get rb' =
       (Inr \<lparr>dtype = Float64, shape = nat (rb_length rb) # tsh,
             elems = map (astype Float64)
                       (elems (np_getslice d (Some (- rb_length rb)) None))\<rparr>, rb')"
proof -
  have rng: "0 \<le> rb_idx rb" "rb_idx rb < rb_length rb"
    using assms(1) by (simp_all add: rb_ok_def)
  define L where "L = nat (rb_length rb)"
  have L: "rb_length rb = int L" "0 < L" "L < n" using rng assms(4) by (simp_all add: L_def)
  define R where "R = prod_list tsh"
  have n: "0 < n" using L by simp
  obtain rb' where r: "RingBuffer_append mem rb d = Inr rb'" "rb_ok tsh rb'"
      "rb_length rb' = rb_length rb" "rb_data rb' \<noteq> None"
      "rb_full rb' \<longleftrightarrow> rb_full rb \<or> rb_length rb \<le> rb_idx rb + int n"
      "rb_idx rb' = (if rb_idx rb + int n < rb_length rb then rb_idx rb + int n
                    else rb_idx rb + min (int n) (rb_length rb) - rb_length rb)"
      "rb_count rb' = min (nat (rb_length rb)) (rb_count rb + n)"
      "rb_contents rb' = lastn (nat (rb_length rb) * prod_list tsh)
          (rb_contents rb @ map (astype Float64) (elems d))"
    using append_step[OF assms(1) assms(2) assms(3) n, of mem]
    by (elim exE conjE) (rule that, assumption+)
  have full: "rb_full rb'" using r(5) rng L by simp
  have cnt: "rb_count rb' = L" using r(7) L by simp
  have lenB: "length (elems d) = n * R" using assms by (simp add: wf_ndarray_def R_def)
  have "(n - L) * R + L * R = n * R" using L by (simp flip: add_mult_distrib)
  then have lenD: "length (elems d) - L * R = (n - L) * R" "L * R \<le> length (elems d)"
    "length (elems d) - (n - L) * R = L * R"
    using lenB L by simp_all
  have el: "elems (np_getslice d (Some (- rb_length rb)) None) = lastn (L * R) (elems d)"
    using assms(2) L lenD
    by (simp add: np_getslice_def Let_def slice_start_def slice_stop_def clip_index_neg
        lastn_def R_def)
  have "lastn (L * R) (rb_contents rb @ map (astype Float64) (elems d))
      = lastn (L * R) (map (astype Float64) (elems d))"
    using lenD(2) by (simp add: lastn_def)
  then have cont: "rb_contents rb' = map (astype Float64) (lastn (L * R) (elems d))"
    using r(8) unfolding L(1) R_def by (simp add: lastn_def drop_map)
  obtain st where st: "rb_data rb' = Some st" using r(4) by auto
  show ?thesis
    using get_allocated[OF r(2) st] r(1) full cnt cont el L(1) by simp
qed

theorem oversized_append_keeps_tail_witness:
  "rb_ok [] (RingBuffer_init 5) \<and>
   shape \<lparr>dtype = Int64, shape = [6],
          elems = [IntV 1, IntV 2, IntV 3, IntV 4, IntV 5, IntV 6]\<rparr> = 6 # [] \<and>
   wf_ndarray \<lparr>dtype = Int64, shape = [6],
          elems = [IntV 1, IntV 2, IntV 3, IntV 4, IntV 5, IntV 6]\<rparr> \<and>
   rb_length (RingBuffer_init 5) < int 6 \<and>
   (\<exists>rb'. RingBuffer_append (\<lambda>i. Fin 0) (RingBuffer_init 5)
        \<lparr>dtype = Int64, shape = [6],
          elems = [IntV 1, IntV 2, IntV 3, IntV 4, IntV 5, IntV 6]\<rparr> = Inr rb' \<and>
      rb_full rb' \<and>
      RingBuffer_get rb' =
        (Inr \<lparr>dtype = Float64, shape = [5],
              elems = [FloatV (Fin 2), FloatV (Fin 3), FloatV (Fin 4), FloatV (Fin 5),
                       FloatV (Fin 6)]\<rparr>, rb'))"
proof -
  let ?d = "\<lparr>dtype = Int64, shape = [6],
          elems = [IntV 1, IntV 2, IntV 3, IntV 4, IntV 5, IntV 6]\<rparr>"
  have h1: "rb_ok [] (RingBuffer_init 5)" by (simp add: rb_ok_def RingBuffer_init_def)
  have h2: "shape ?d = 6 # []" by simp
  have h3: "wf_ndarray ?d" by (simp add: wf_ndarray_def)
  have h4: "rb_length (RingBuffer_init 5) < int 6" by (simp add: RingBuffer_init_def)
  have e: "map (astype Float64) (elems (np_getslice ?d (Some (- rb_length (RingBuffer_init 5))) None))
     = [FloatV (Fin 2), FloatV (Fin 3), FloatV (Fin 4), FloatV (Fin 5), FloatV (Fin 6)]"
    by (simp add: np_getslice_def RingBuffer_init_def slice_start_def slice_stop_def
        clip_index_def Let_def round_f64_exact)
  have l: "nat (rb_length (RingBuffer_init 5)) = 5" by (simp add: RingBuffer_init_def)
  show ?thesis
    using h1 h2 h3 h4 oversized_append_keeps_tail[OF h1 h2 h3 h4, of "\<lambda>i. Fin 0"]
    unfolding e l by simp
qed

text \<open>
  Claim C4.  A non-empty batch whose record count, after truncation to the capacity,
  satisfies \<open>idx + count = length\<close> goes through the wrap branch (the no-wrap test is
  the strict \<open>idx + count < length\<close>): afterwards the buffer is full and \<open>idx\<close> is 0.
\<close>

theorem exact_fit_wraps:
  assumes "rb_ok tsh rb" "shape d = n # tsh" "wf_ndarray d" "0 < n"
    "rb_idx rb + min (int n) (rb_length rb) = rb_length rb"
  shows "\<exists>rb'. RingBuffer_append mem rb d = Inr rb' \<and> rb_full rb' \<and> rb_idx rb' = 0"
proof -
  obtain rb' where r: "RingBuffer_append mem rb d = Inr rb'" "rb_ok tsh rb'"
      "rb_length rb' = rb_length rb" "rb_data rb' \<noteq> None"
      "rb_full rb' \<longleftrightarrow> rb_full rb \<or> rb_length rb \<le> rb_idx rb + int n"
      "rb_idx rb' = (if rb_idx rb + int n < rb_length rb then rb_idx rb + int n
                    else rb_idx rb + min (int n) (rb_length rb) - rb_length rb)"
    using append_step[OF assms(1) assms(2) assms(3) assms(4), of mem]
    by (elim exE conjE) (rule that, assumption+)
  have "rb_length rb \<le> rb_idx rb + int n" using assms(5) by (simp add: min_def split: if_splits)
  then show ?thesis using r assms(5) by simp
qed

theorem exact_fit_wraps_witness:
  "rb_ok [] \<lparr>rb_length = 5,
      rb_data = Some \<lparr>dtype = Float64, shape = [5],
         elems = [FloatV (Fin 1), FloatV (Fin 2), FloatV (Fin 3), FloatV NaN, FloatV NaN]\<rparr>,
      rb_full = False, rb_idx = 3\<rparr> \<and>
   (\<exists>rb'. RingBuffer_append (\<lambda>i. Fin 0)
        \<lparr>rb_length = 5,
          rb_data = Some \<lparr>dtype = Float64, shape = [5],
             elems = [FloatV (Fin 1), FloatV (Fin 2), FloatV (Fin 3), FloatV NaN, FloatV NaN]\<rparr>,
          rb_full = False, rb_idx = 3\<rparr>
        \<lparr>dtype = Float64, shape = [2], elems = [FloatV (Fin 4), FloatV (Fin 5)]\<rparr> = Inr rb' \<and>
      rb_full rb' \<and> rb_idx rb' = 0)"
proof -
  let ?rb = "\<lparr>rb_length = 5,
      rb_data = Some \<lparr>dtype = Float64, shape = [5],
         elems = [FloatV (Fin 1), FloatV (Fin 2), FloatV (Fin 3), FloatV NaN, FloatV NaN]\<rparr>,
      rb_full = False, rb_idx = 3\<rparr>"
  let ?d = "\<lparr>dtype = Float64, shape = [2], elems = [FloatV (Fin 4), FloatV (Fin 5)]\<rparr>"
  have h1: "rb_ok [] ?rb" by (simp add: rb_ok_def wf_ndarray_def well_typed_def)
  have h2: "shape ?d = 2 # []" by simp
  have h3: "wf_ndarray ?d" by (simp add: wf_ndarray_def)
  have h4: "(0::nat) < 2" by simp
  have h5: "rb_idx ?rb + min (int 2) (rb_length ?rb) = rb_length ?rb" by simp
  show ?thesis
    using h1 exact_fit_wraps[OF h1 h2 h3 h4 h5, of "\<lambda>i. Fin 0"] by simp
qed

lemma append_idx_range:
  assumes "0 \<le> rb_idx rb" "rb_idx rb < rb_length rb"
  shows "rb_length (outcome_state (RingBuffer_append mem rb d)) = rb_length rb \<and>
     0 \<le> rb_idx (outcome_state (RingBuffer_append mem rb d)) \<and>
     rb_idx (outcome_state (RingBuffer_append mem rb d))
       < rb_length (outcome_state (RingBuffer_append mem rb d))"
proof (cases "shape d")
  case Nil
  then show ?thesis using assms by (simp add: RingBuffer_append_def np_len_def)
next
  case (Cons n t)
  define L where "L = nat (rb_length rb)"
  have L: "rb_length rb = int L" "0 < L" using assms by (simp_all add: L_def)
  have h: "L < n \<Longrightarrow> hd (shape (np_getslice d (Some (- int L)) None)) = L"
    using Cons L
    by (simp add: np_getslice_def Let_def slice_start_def slice_stop_def clip_index_neg)
  show ?thesis
    using assms Cons L h
    by (auto simp: RingBuffer_append_def np_len_def Let_def split: sum.splits option.splits)
qed

lemma appends_any_idx_range:
  assumes "0 \<le> rb_idx rb" "rb_idx rb < rb_length rb"
  shows "rb_length (appends_any mem rb ds) = rb_length rb \<and>
     0 \<le> rb_idx (appends_any mem rb ds) \<and>
     rb_idx (appends_any mem rb ds) < rb_length (appends_any mem rb ds)"
  using assms
proof (induction ds arbitrary: rb)
  case Nil
  then show ?case by simp
next
  case (Cons d ds)
  let ?rb1 = "outcome_state (RingBuffer_append mem rb d)"
  have a: "rb_length ?rb1 = rb_length rb" "0 \<le> rb_idx ?rb1" "rb_idx ?rb1 < rb_length ?rb1"
    using append_idx_range[OF Cons.prems, of mem d] by simp_all
  show ?case using Cons.IH[OF a(2) a(3)] a(1) by simp
qed

text \<open>
  Claim C9.  A buffer constructed with a positive capacity \<open>L\<close> starts with
  \<open>0 \<le> idx < length\<close>, and every \<open>append\<close> keeps it so, whatever the batch and whether
  the call returns or raises (oversized, exact-fit and wrapping batches included).  So
  in the wrap branch \<open>l1 = length - idx\<close> is at least 1, and the slice
  \<open>self.data[-l1:]\<close> starts at \<open>idx\<close>.
\<close>

theorem idx_stays_in_range:
  assumes "0 < L"
  shows "0 \<le> rb_idx (RingBuffer_init L) \<and> rb_idx (RingBuffer_init L) < rb_length (RingBuffer_init L) \<and>
     rb_length (appends_any mem (RingBuffer_init L) ds) = L \<and>
     0 \<le> rb_idx (appends_any mem (RingBuffer_init L) ds) \<and>
     rb_idx (appends_any mem (RingBuffer_init L) ds) < L \<and>
     1 \<le> rb_length (appends_any mem (RingBuffer_init L) ds)
           - rb_idx (appends_any mem (RingBuffer_init L) ds) \<and>
     slice_start (nat L)
        (Some (- (rb_length (appends_any mem (RingBuffer_init L) ds)
                  - rb_idx (appends_any mem (RingBuffer_init L) ds))))
       = nat (rb_idx (appends_any mem (RingBuffer_init L) ds))"
proof -
  have i: "0 \<le> rb_idx (RingBuffer_init L)" "rb_idx (RingBuffer_init L) < rb_length (RingBuffer_init L)"
    "rb_length (RingBuffer_init L) = L"
    using assms by (simp_all add: RingBuffer_init_def)
  show ?thesis
    using appends_any_idx_range[OF i(1) i(2), of mem ds] i
    by (auto simp: slice_start_def clip_index_def)
qed

theorem idx_stays_in_range_witness:
  "(0::int) < 5 \<and>
   0 \<le> rb_idx (RingBuffer_init 5) \<and> rb_idx (RingBuffer_init 5) < rb_length (RingBuffer_init 5) \<and>
   rb_length (appends_any (\<lambda>i. Fin 0) (RingBuffer_init 5)
      [\<lparr>dtype = Int64, shape = [3], elems = [IntV 1, IntV 2, IntV 3]\<rparr>,
       \<lparr>dtype = Int64, shape = [2], elems = [IntV 4, IntV 5]\<rparr>,
       \<lparr>dtype = Int64, shape = [2, 2], elems = [IntV 6, IntV 7, IntV 8, IntV 9]\<rparr>,
       \<lparr>dtype = Int64, shape = [7],
         elems = [IntV 1, IntV 2, IntV 3, IntV 4, IntV 5, IntV 6, IntV 7]\<rparr>]) = 5 \<and>
   0 \<le> rb_idx (appends_any (\<lambda>i. Fin 0) (RingBuffer_init 5)
      [\<lparr>dtype = Int64, shape = [3], elems = [IntV 1, IntV 2, IntV 3]\<rparr>,
       \<lparr>dtype = Int64, shape = [2], elems = [IntV 4, IntV 5]\<rparr>,
       \<lparr>dtype = Int64, shape = [2, 2], elems = [IntV 6, IntV 7, IntV 8, IntV 9]\<rparr>,
       \<lparr>dtype = Int64, shape = [7],
         elems = [IntV 1, IntV 2, IntV 3, IntV 4, IntV 5, IntV 6, IntV 7]\<rparr>]) \<and>
   rb_idx (appends_any (\<lambda>i. Fin 0) (RingBuffer_init 5)
      [\<lparr>dtype = Int64, shape = [3], elems = [IntV 1, IntV 2, IntV 3]\<rparr>,
       \<lparr>dtype = Int64, shape = [2], elems = [IntV 4, IntV 5]\<rparr>,
       \<lparr>dtype = Int64, shape = [2, 2], elems = [IntV 6, IntV 7, IntV 8, IntV 9]\<rparr>,
       \<lparr>dtype = Int64, shape = [7],
         elems = [IntV 1, IntV 2, IntV 3, IntV 4, IntV 5, IntV 6, IntV 7]\<rparr>]) < 5"
proof -
  have h: "(0::int) < 5" by simp
  show ?thesis
    using h idx_stays_in_range[OF h, of "\<lambda>i. Fin 0"
      "[\<lparr>dtype = Int64, shape = [3], elems = [IntV 1, IntV 2, IntV 3]\<rparr>,
       \<lparr>dtype = Int64, shape = [2], elems = [IntV 4, IntV 5]\<rparr>,
       \<lparr>dtype = Int64, shape = [2, 2], elems = [IntV 6, IntV 7, IntV 8, IntV 9]\<rparr>,
       \<lparr>dtype = Int64, shape = [7],
         elems = [IntV 1, IntV 2, IntV 3, IntV 4, IntV 5, IntV 6, IntV 7]\<rparr>]"]
    by blast
qed

text \<open>
  Claim C2.  The claim is that a batch whose trailing shape differs from the store's is
  rejected and the buffer left as it was.  \<open>append\<close> has no shape check of its own: it
  relies on numpy refusing the slice assignment, and numpy broadcasts a source whose
  axes are of size 1.  After \<open>[[1,2],[3,4],[5,6]]\<close> went into a buffer of capacity 5,
  appending \<open>[[7]]\<close> (records of shape \<open>(1,)\<close>, not \<open>(2,)\<close>) returns normally, stores
  the record \<open>[7,7]\<close> and moves \<open>idx\<close> to 4.
\<close>

theorem append_mismatched_shape_returns:
  "tl (shape \<lparr>dtype = Int64, shape = [1, 1], elems = [IntV 7]\<rparr>) \<noteq> [2] \<and>
   RingBuffer_append (\<lambda>i. Fin 0)
     \<lparr>rb_length = 5,
       rb_data = Some \<lparr>dtype = Float64, shape = [5, 2],
              elems = [FloatV (Fin 1), FloatV (Fin 2), FloatV (Fin 3),
                 FloatV (Fin 4), FloatV (Fin 5), FloatV (Fin 6),
                 FloatV (Fin 0), FloatV (Fin 0), FloatV (Fin 0), FloatV (Fin 0)]\<rparr>,
       rb_full = False, rb_idx = 3\<rparr>
     \<lparr>dtype = Int64, shape = [1, 1], elems = [IntV 7]\<rparr>
   = Inr \<lparr>rb_length = 5,
        rb_data = Some \<lparr>dtype = Float64, shape = [5, 2],
              elems = [FloatV (Fin 1), FloatV (Fin 2), FloatV (Fin 3),
                 FloatV (Fin 4), FloatV (Fin 5), FloatV (Fin 6),
                 FloatV (Fin 7), FloatV (Fin 7), FloatV (Fin 0), FloatV (Fin 0)]\<rparr>,
        rb_full = False, rb_idx = 4\<rparr>"
  by (simp add: RingBuffer_append_def np_len_def np_setslice_def
      np_getslice_def slice_start_def slice_stop_def clip_index_def broadcast_to_def Let_def
      round_f64_exact eval_nat_numeral)

text \<open>
  The buffer of that example is the one \<open>append\<close> itself builds from a fresh buffer.
\<close>

lemma append_first_batch_example:
  "RingBuffer_append (\<lambda>i. Fin 0) (RingBuffer_init 5)
     \<lparr>dtype = Int64, shape = [3, 2],
       elems = [IntV 1, IntV 2, IntV 3, IntV 4, IntV 5, IntV 6]\<rparr>
   = Inr \<lparr>rb_length = 5,
       rb_data = Some \<lparr>dtype = Float64, shape = [5, 2],
              elems = [FloatV (Fin 1), FloatV (Fin 2), FloatV (Fin 3),
                 FloatV (Fin 4), FloatV (Fin 5), FloatV (Fin 6),
                 FloatV (Fin 0), FloatV (Fin 0), FloatV (Fin 0), FloatV (Fin 0)]\<rparr>,
       rb_full = False, rb_idx = 3\<rparr>"
  by (simp add: RingBuffer_append_def RingBuffer_init_def np_len_def np_empty_def np_setslice_def
      np_getslice_def slice_start_def slice_stop_def clip_index_def broadcast_to_def Let_def
      round_f64_exact upt_rec eval_nat_numeral)

text \<open>
  Where numpy does refuse the assignment, the buffer is not always left as it was: on
  the wrap branch \<open>self.full = True\<close> is assigned before the first slice assignment.
  A batch of shape \<open>(2,3)\<close> raises \<open>ValueError\<close> and leaves the buffer marked full, so
  that \<open>get\<close> returns five records, two of them never written, where it returned three.
\<close>

lemma append_mismatched_shape_raises_after_full:
  "RingBuffer_append (\<lambda>i. Fin 0)
     \<lparr>rb_length = 5,
       rb_data = Some \<lparr>dtype = Float64, shape = [5, 2],
              elems = [FloatV (Fin 1), FloatV (Fin 2), FloatV (Fin 3),
                 FloatV (Fin 4), FloatV (Fin 5), FloatV (Fin 6),
                 FloatV (Fin 0), FloatV (Fin 0), FloatV (Fin 0), FloatV (Fin 0)]\<rparr>,
       rb_full = False, rb_idx = 3\<rparr>
     \<lparr>dtype = Int64, shape = [2, 3],
       elems = [IntV 7, IntV 8, IntV 9, IntV 10, IntV 11, IntV 12]\<rparr>
   = Inl (ValueError,
      \<lparr>rb_length = 5,
       rb_data = Some \<lparr>dtype = Float64, shape = [5, 2],
              elems = [FloatV (Fin 1), FloatV (Fin 2), FloatV (Fin 3),
                 FloatV (Fin 4), FloatV (Fin 5), FloatV (Fin 6),
                 FloatV (Fin 0), FloatV (Fin 0), FloatV (Fin 0), FloatV (Fin 0)]\<rparr>,
       rb_full = True, rb_idx = 3\<rparr>)"
  by (simp add: RingBuffer_append_def np_len_def np_setslice_def
      np_getslice_def slice_start_def slice_stop_def clip_index_def broadcast_to_def Let_def
      round_f64_exact eval_nat_numeral)

lemma get_before_and_after_failed_append:
  "fst (RingBuffer_get
     \<lparr>rb_length = 5,
       rb_data = Some \<lparr>dtype = Float64, shape = [5, 2],
              elems = [FloatV (Fin 1), FloatV (Fin 2), FloatV (Fin 3),
                 FloatV (Fin 4), FloatV (Fin 5), FloatV (Fin 6),
                 FloatV (Fin 0), FloatV (Fin 0), FloatV (Fin 0), FloatV (Fin 0)]\<rparr>,
       rb_full = False, rb_idx = 3\<rparr>)
   = Inr \<lparr>dtype = Float64, shape = [3, 2],
          elems = [FloatV (Fin 1), FloatV (Fin 2), FloatV (Fin 3),
                   FloatV (Fin 4), FloatV (Fin 5), FloatV (Fin 6)]\<rparr> \<and>
   fst (RingBuffer_get
     \<lparr>rb_length = 5,
       rb_data = Some \<lparr>dtype = Float64, shape = [5, 2],
              elems = [FloatV (Fin 1), FloatV (Fin 2), FloatV (Fin 3),
                 FloatV (Fin 4), FloatV (Fin 5), FloatV (Fin 6),
                 FloatV (Fin 0), FloatV (Fin 0), FloatV (Fin 0), FloatV (Fin 0)]\<rparr>,
       rb_full = True, rb_idx = 3\<rparr>)
   = Inr \<lparr>dtype = Float64, shape = [5, 2],
          elems = [FloatV (Fin 0), FloatV (Fin 0), FloatV (Fin 0), FloatV (Fin 0),
                   FloatV (Fin 1), FloatV (Fin 2), FloatV (Fin 3),
                   FloatV (Fin 4), FloatV (Fin 5), FloatV (Fin 6)]\<rparr>"
  by (simp add: RingBuffer_get_def np_getslice_def np_concatenate_def promote_def
      slice_start_def slice_stop_def clip_index_def Let_def)

lemma rb_contents_typed:
  assumes "rb_ok tsh rb"
  shows "list_all (\<lambda>x. scalar_dtype x = Float64) (rb_contents rb)"
proof (cases "rb_data rb")
  case None
  then show ?thesis by (simp add: rb_contents_def)
next
  case (Some st)
  have "list_all (\<lambda>x. scalar_dtype x = Float64) (elems st)"
    using assms Some by (auto simp: rb_ok_def well_typed_def)
  then show ?thesis
    using Some by (simp add: rb_contents_def Let_def list_all_take list_all_drop)
qed

text \<open>
  Claim C10.  The store is allocated by \<open>np.empty\<close> without an element type, so it is
  float64 whatever the element type of the first batch.  After the first batch \<open>d\<close> of
  \<open>n\<close> records went into a buffer of capacity \<open>L\<close>, \<open>get\<close> returns the last
  \<open>min n L\<close> records of \<open>d\<close>, each element converted to float64: for an integer batch
  the elements that come back are the floats nearest to the integers appended, not
  integers.
\<close>

theorem store_is_float64:
  assumes "rb_ok tsh rb" "rb_data rb = None" "shape d = n # tsh" "wf_ndarray d" "0 < n"
  shows "\<exists>rb' st r. RingBuffer_append mem rb d = Inr rb' \<and>
     rb_data rb' = Some st \<and> dtype st = Float64 \<and>
     RingBuffer_get rb' = (Inr r, rb') \<and> dtype r = Float64 \<and>
     shape r = min n (nat (rb_length rb)) # tsh \<and>
     elems r = lastn (min n (nat (rb_length rb)) * prod_list tsh)
                 (map (astype Float64) (elems d)) \<and>
     list_all (\<lambda>x. scalar_dtype x = Float64) (elems r)"
proof -
  define L where "L = nat (rb_length rb)"
  define P where "P = prod_list tsh"
  define xs where "xs = map (astype Float64) (elems d)"
  obtain rb' where r: "RingBuffer_append mem rb d = Inr rb'" "rb_ok tsh rb'"
      "rb_length rb' = rb_length rb" "rb_data rb' \<noteq> None"
      "rb_count rb' = min (nat (rb_length rb)) (rb_count rb + n)"
      "rb_contents rb' =
        lastn (nat (rb_length rb) * prod_list tsh)
          (rb_contents rb @ map (astype Float64) (elems d))"
    using append_step[OF assms(1) assms(3) assms(4) assms(5), of mem]
    by (elim exE conjE) (rule that, assumption+)
  obtain st where st: "rb_data rb' = Some st" using r(4) by auto
  have ds: "dtype st = Float64" using r(2) st by (simp add: rb_ok_def)
  have e0: "rb_count rb = 0" "rb_contents rb = []"
    using assms(1,2) by (simp_all add: rb_ok_def rb_count_def rb_contents_def)
  have cnt: "rb_count rb' = min n L" using r(5) e0 by (simp add: L_def min.commute)
  have len: "length xs = n * P" using assms(3,4) by (simp add: xs_def wf_ndarray_def P_def)
  have con: "rb_contents rb' = lastn (L * P) xs"
    using r(6) e0 by (simp add: L_def P_def xs_def)
  have "lastn (L * P) xs = lastn (min n L * P) xs"
  proof (cases "n \<le> L")
    case True
    then have "n * P \<le> L * P" by simp
    then have "lastn (L * P) xs = xs" using len by (simp add: lastn_all)
    moreover have "lastn (min n L * P) xs = xs" using True len by (simp add: lastn_all)
    ultimately show ?thesis by simp
  next
    case False
    then show ?thesis by simp
  qed
  then have con': "rb_contents rb' = lastn (min n L * P) xs" using con by simp
  have g: "RingBuffer_get rb' =
     (Inr \<lparr>dtype = Float64, shape = min n L # tsh, elems = lastn (min n L * P) xs\<rparr>, rb')"
    using get_allocated[OF r(2) st] unfolding cnt con' .
  have ty: "list_all (\<lambda>x. scalar_dtype x = Float64) (lastn (min n L * P) xs)"
    using rb_contents_typed[OF r(2)] unfolding con' .
  show ?thesis
    using r(1) st ds g ty unfolding L_def P_def xs_def by simp
qed

theorem store_is_float64_witness:
  "rb_ok [] (RingBuffer_init 5) \<and> rb_data (RingBuffer_init 5) = None \<and>
   dtype \<lparr>dtype = Int64, shape = [3], elems = [IntV 1, IntV 2, IntV 3]\<rparr> = Int64 \<and>
   well_typed \<lparr>dtype = Int64, shape = [3], elems = [IntV 1, IntV 2, IntV 3]\<rparr> \<and>
   wf_ndarray \<lparr>dtype = Int64, shape = [3], elems = [IntV 1, IntV 2, IntV 3]\<rparr> \<and>
   (\<exists>rb' st. RingBuffer_append (\<lambda>i. Fin 0) (RingBuffer_init 5)
         \<lparr>dtype = Int64, shape = [3], elems = [IntV 1, IntV 2, IntV 3]\<rparr> = Inr rb' \<and>
     rb_data rb' = Some st \<and> dtype st = Float64 \<and>
     RingBuffer_get rb' =
       (Inr \<lparr>dtype = Float64, shape = [3],
             elems = [FloatV (Fin 1), FloatV (Fin 2), FloatV (Fin 3)]\<rparr>, rb'))"
proof -
  let ?d = "\<lparr>dtype = Int64, shape = [3], elems = [IntV 1, IntV 2, IntV 3]\<rparr>"
  have h1: "rb_ok [] (RingBuffer_init 5)" by (simp add: rb_ok_def RingBuffer_init_def)
  have h2: "rb_data (RingBuffer_init 5) = None" by (simp add: RingBuffer_init_def)
  have h3: "shape ?d = 3 # []" by simp
  have h4: "wf_ndarray ?d" by (simp add: wf_ndarray_def)
  have h5: "(0::nat) < 3" by simp
  have h6: "well_typed ?d" by (simp add: well_typed_def)
  have l: "rb_length (RingBuffer_init 5) = 5" by (simp add: RingBuffer_init_def)
  obtain rb' st r where r:
    "RingBuffer_append (\<lambda>i. Fin 0) (RingBuffer_init 5) ?d = Inr rb'"
    "rb_data rb' = Some st" "dtype st = Float64"
    "RingBuffer_get rb' = (Inr r, rb')" "dtype r = Float64"
    "shape r = min 3 (nat (rb_length (RingBuffer_init 5))) # []"
    "elems r = lastn (min 3 (nat (rb_length (RingBuffer_init 5))) * prod_list [])
                 (map (astype Float64) (elems ?d))"
    using store_is_float64[OF h1 h2 h3 h4 h5, of "\<lambda>i. Fin 0"]
    by (elim exE conjE) (rule that, assumption+)
  have "r = \<lparr>dtype = Float64, shape = [3],
             elems = [FloatV (Fin 1), FloatV (Fin 2), FloatV (Fin 3)]\<rparr>"
    using r(5) r(6) r(7) unfolding l by (cases r) (simp add: lastn_def round_f64_exact)
  then show ?thesis
    using h1 h2 h4 h6 r(1) r(2) r(3) r(4) by auto
qed

section \<open>Data: lemmas\<close>

lemma and_then_Inr [simp]: "and_then (Inr x) f = f x"
  by (simp add: and_then_def)

lemma and_then_Inl [simp]: "and_then (Inl e) f = Inl e"
  by (simp add: and_then_def)

lemma comprehension_Inr:
  "(\<And>i. i \<in> set js \<Longrightarrow> f i = Inr (g i)) \<Longrightarrow> comprehension f js = Inr (map g js)"
  by (induction js) simp_all

lemma deref_SomeD: "deref h v = Some ob \<Longrightarrow> \<exists>a. v = PRef a \<and> a < length h \<and> h ! a = ob"
  by (cases v) (auto simp: deref_def split: if_splits)

lemma those_map_nth:
  "those (map f xs) = Some ys \<Longrightarrow> length ys = length xs \<and> (\<forall>i < length xs. f (xs ! i) = Some (ys ! i))"
proof (induction xs arbitrary: ys)
  case Nil
  then show ?case by simp
next
  case (Cons x xs)
  then obtain y ys' where y: "f x = Some y" "those (map f xs) = Some ys'" "ys = y # ys'"
    by (auto split: option.splits)
  from Cons.IH[OF y(2)] y show ?case by (auto simp: nth_Cons split: nat.splits)
qed

lemma py_len_list: "deref h v = Some (OList xs) \<Longrightarrow> py_len h v = Inr (length xs)"
  by (cases v) (auto simp: py_len_def deref_def split: if_splits)

lemma py_getitem_list:
  "deref h v = Some (OList xs) \<Longrightarrow> i < length xs \<Longrightarrow> py_getitem h v i = Inr (xs ! i)"
  by (simp add: py_getitem_def)

lemma as_ndarray_array_at: "array_at h v = Some a \<Longrightarrow> as_ndarray h v = Inr a"
  by (auto simp: array_at_def as_ndarray_def split: option.splits pyobj.splits)

lemma array_at_deref: "array_at h v = Some a \<Longrightarrow> deref h v = Some (OArray a)"
  by (auto simp: array_at_def split: option.splits pyobj.splits)

lemma view_ofD:
  assumes "view_of h d = Some v"
  shows "\<exists>dv av nv uv axs.
     map_of d ''data'' = Some dv \<and> map_of d ''axes'' = Some av \<and>
     map_of d ''names'' = Some nv \<and> map_of d ''units'' = Some uv \<and>
     deref h dv = Some (OArray (dv_data v)) \<and> deref h av = Some (OList axs) \<and>
     deref h nv = Some (OList (dv_names v)) \<and> deref h uv = Some (OList (dv_units v)) \<and>
     those (map (array_at h) axs) = Some (dv_axes v) \<and>
     list_all is_atom (dv_names v) \<and> list_all is_atom (dv_units v)"
  using assms
  by (auto simp: view_of_def split: option.splits pyobj.splits if_splits)

lemma py_eq_lists:
  assumes "deref h v = Some (OList xs)" "deref h w = Some (OList ys)"
    "list_all is_atom xs" "list_all is_atom ys"
  shows "py_eq h v w = Inr (xs = ys)"
proof -
  obtain a b where "v = PRef a" "w = PRef b" using assms(1,2) by (auto dest!: deref_SomeD)
  then show ?thesis using assms by (simp add: py_eq_def)
qed

lemma list_all_id_map_upt:
  "list_all id (map g [0 ..< n]) \<longleftrightarrow> (\<forall>i < n. g i)"
  by (auto simp: list_all_iff)

lemma Data_eq_view:
  assumes s: "deref h s = Some (OInst d1)" and v1: "view_of h d1 = Some v1"
    and t: "deref h t = Some (OInst d2)" and v2: "view_of h d2 = Some v2"
  shows "Data_eq h s t = Inr (sort (map fst d1) = sort (map fst d2) \<and> view_eq v1 v2)"
proof -
  obtain dv1 av1 nv1 uv1 axs1 where a:
    "map_of d1 ''data'' = Some dv1" "map_of d1 ''axes'' = Some av1"
    "map_of d1 ''names'' = Some nv1" "map_of d1 ''units'' = Some uv1"
    "deref h dv1 = Some (OArray (dv_data v1))" "deref h av1 = Some (OList axs1)"
    "deref h nv1 = Some (OList (dv_names v1))" "deref h uv1 = Some (OList (dv_units v1))"
    "those (map (array_at h) axs1) = Some (dv_axes v1)"
    "list_all is_atom (dv_names v1)" "list_all is_atom (dv_units v1)"
    using view_ofD[OF v1] by (elim exE conjE) (rule that, assumption+)
  obtain dv2 av2 nv2 uv2 axs2 where b:
    "map_of d2 ''data'' = Some dv2" "map_of d2 ''axes'' = Some av2"
    "map_of d2 ''names'' = Some nv2" "map_of d2 ''units'' = Some uv2"
    "deref h dv2 = Some (OArray (dv_data v2))" "deref h av2 = Some (OList axs2)"
    "deref h nv2 = Some (OList (dv_names v2))" "deref h uv2 = Some (OList (dv_units v2))"
    "those (map (array_at h) axs2) = Some (dv_axes v2)"
    "list_all is_atom (dv_names v2)" "list_all is_atom (dv_units v2)"
    using view_ofD[OF v2] by (elim exE conjE) (rule that, assumption+)
  have l1: "length (dv_axes v1) = length axs1"
    and n1: "\<And>i. i < length axs1 \<Longrightarrow> array_at h (axs1 ! i) = Some (dv_axes v1 ! i)"
    using those_map_nth[OF a(9)] by simp_all
  have l2: "length (dv_axes v2) = length axs2"
    and n2: "\<And>i. i < length axs2 \<Longrightarrow> array_at h (axs2 ! i) = Some (dv_axes v2 ! i)"
    using those_map_nth[OF b(9)] by simp_all
  have d: "inst_dict h s = Inr d1" "inst_dict h t = Inr d2"
    using s t by (simp_all add: inst_dict_def)
  have g: "getattr d1 ''data'' = Inr dv1" "getattr d1 ''axes'' = Inr av1"
    "getattr d1 ''names'' = Inr nv1" "getattr d1 ''units'' = Inr uv1"
    "getattr d2 ''data'' = Inr dv2" "getattr d2 ''axes'' = Inr av2"
    "getattr d2 ''names'' = Inr nv2" "getattr d2 ''units'' = Inr uv2"
    using a b by (simp_all add: getattr_def)
  have ae: "py_array_equal h dv1 dv2 = Inr (np_array_equal (dv_data v1) (dv_data v2))"
    using a(5) b(5) by (simp add: py_array_equal_def)
  have len: "py_len h av1 = Inr (length axs1)" "py_len h av2 = Inr (length axs2)"
    using a(6) b(6) by (simp_all add: py_len_list)
  have nm: "py_eq h nv1 nv2 = Inr (dv_names v1 = dv_names v2)"
    using py_eq_lists[OF a(7) b(7) a(10) b(10)] .
  have un: "py_eq h uv1 uv2 = Inr (dv_units v1 = dv_units v2)"
    using py_eq_lists[OF a(8) b(8) a(11) b(11)] .
  show ?thesis
  proof (cases "length axs1 = length axs2")
    case False
    then have "\<not> view_eq v1 v2" using l1 l2 by (auto simp: view_eq_def dest: list_all2_lengthD)
    then show ?thesis using False d g ae len by (simp add: Data_eq_def)
  next
    case True
    let ?n = "length axs1"
    have c2: "comprehension (\<lambda>i.
         and_then (py_getitem h av1 i) (\<lambda>p.
         and_then (as_ndarray h p) (\<lambda>pa.
         and_then (py_getitem h av2 i) (\<lambda>q.
         and_then (as_ndarray h q) (\<lambda>qa. Inr (shape pa = shape qa)))))) [0 ..< ?n]
       = Inr (map (\<lambda>i. shape (dv_axes v1 ! i) = shape (dv_axes v2 ! i)) [0 ..< ?n])"
      using True a(6) b(6) n1 n2
      by (intro comprehension_Inr) (simp add: py_getitem_list as_ndarray_array_at)
    have sh: "(\<forall>i < ?n. shape (dv_axes v1 ! i) = shape (dv_axes v2 ! i))
        \<longleftrightarrow> list_all2 (\<lambda>a b. shape a = shape b) (dv_axes v1) (dv_axes v2)"
      using True l1 l2 by (simp add: list_all2_conv_all_nth)
    show ?thesis
    proof (cases "list_all2 (\<lambda>a b. shape a = shape b) (dv_axes v1) (dv_axes v2)")
      case False
      then have "\<not> view_eq v1 v2" by (simp add: view_eq_def)
      then show ?thesis
        using False True d g ae len c2 sh by (simp add: Data_eq_def list_all_id_map_upt)
    next
      case shapes: True
      have c3: "comprehension (\<lambda>i.
         and_then (py_getitem h av1 i) (\<lambda>p.
         and_then (py_getitem h av2 i) (\<lambda>q. py_elementwise_all h p q))) [0 ..< ?n]
        = Inr (map (\<lambda>i. list_all2 scalar_eq (elems (dv_axes v1 ! i)) (elems (dv_axes v2 ! i)))
             [0 ..< ?n])"
      proof (intro comprehension_Inr)
        fix i assume "i \<in> set [0 ..< ?n]"
        then have i: "i < length axs1" "i < length axs2" using True by simp_all
        have e: "shape (dv_axes v1 ! i) = shape (dv_axes v2 ! i)"
          using shapes sh i by simp
        show "and_then (py_getitem h av1 i) (\<lambda>p.
           and_then (py_getitem h av2 i) (\<lambda>q. py_elementwise_all h p q))
          = Inr (list_all2 scalar_eq (elems (dv_axes v1 ! i)) (elems (dv_axes v2 ! i)))"
          using i e a(6) b(6) array_at_deref[OF n1[OF i(1)]] array_at_deref[OF n2[OF i(2)]]
          by (simp add: py_getitem_list py_elementwise_all_def)
      qed
      have el: "(\<forall>i < ?n. list_all2 scalar_eq (elems (dv_axes v1 ! i)) (elems (dv_axes v2 ! i)))
        \<longleftrightarrow> list_all2 (\<lambda>a b. list_all2 scalar_eq (elems a) (elems b)) (dv_axes v1) (dv_axes v2)"
        using True l1 l2 by (simp add: list_all2_conv_all_nth)
      show ?thesis
        using shapes True d g ae len c2 c3 sh el nm un
        by (auto simp: Data_eq_def list_all_id_map_upt view_eq_def)
    qed
  qed
qed

lemma deref_append: "deref h v = Some ob \<Longrightarrow> deref (h @ ys) v = Some ob"
  by (cases v) (auto simp: deref_def nth_append split: if_splits)

lemma array_at_append:
  assumes "array_at h v = Some a"
  shows "array_at (h @ ys) v = Some a"
proof -
  have "deref (h @ ys) v = Some (OArray a)"
    using deref_append[OF array_at_deref[OF assms]] .
  then show ?thesis by (simp add: array_at_def)
qed

lemma those_map_SomeI:
  "length ys = length xs \<Longrightarrow> (\<And>i. i < length xs \<Longrightarrow> f (xs ! i) = Some (ys ! i)) \<Longrightarrow>
   those (map f xs) = Some ys"
proof (induction xs arbitrary: ys)
  case Nil
  then show ?case by simp
next
  case (Cons x xs)
  then obtain y ys' where y: "ys = y # ys'" by (cases ys) auto
  have "f x = Some y" using Cons.prems(2)[of 0] y by simp
  moreover have "those (map f xs) = Some ys'"
  proof (rule Cons.IH)
    show "length ys' = length xs" using Cons.prems(1) y by simp
    fix i assume "i < length xs"
    then show "f (xs ! i) = Some (ys' ! i)" using Cons.prems(2)[of "Suc i"] y by simp
  qed
  ultimately show ?case using y by simp
qed

lemma deref_new: "deref (h @ ob # ys) (PRef (length h)) = Some ob"
  by (simp add: deref_def)

lemma np_array_each_arrays:
  "those (map (array_at h) vs) = Some arrs \<Longrightarrow>
   np_array_each h vs =
     Inr (map (\<lambda>i. PRef (length h + i)) [0 ..< length vs], h @ map OArray arrs)"
proof (induction vs arbitrary: h arrs)
  case Nil
  then show ?case by simp
next
  case (Cons v vs)
  then obtain a as where a: "array_at h v = Some a" "those (map (array_at h) vs) = Some as"
      "arrs = a # as"
    by (auto split: option.splits)
  have "those (map (array_at (h @ [OArray a])) vs) = Some as"
  proof -
    have "map (array_at (h @ [OArray a])) vs = map (array_at h) vs"
    proof (rule map_cong[OF refl])
      fix x assume "x \<in> set vs"
      then obtain i where i: "i < length vs" "x = vs ! i" by (auto simp: in_set_conv_nth)
      then have "array_at h x = Some (as ! i)" using those_map_nth[OF a(2)] by simp
      then show "array_at (h @ [OArray a]) x = array_at h x" by (simp add: array_at_append)
    qed
    then show ?thesis using a(2) by (simp only:)
  qed
  from Cons.IH[OF this] a show ?case
    by (simp add: np_array_def array_at_deref map_upt_Suc del: upt_Suc)
qed

lemma check_axes_arrays:
  assumes "deref h axes = Some (OList axs)" "those (map (array_at h) axs) = Some arrs"
    "list_all (\<lambda>a. shape a \<noteq> []) arrs" "\<forall>i \<in> set js. i < length axs"
  shows "check_axes h arr axes js =
     (if \<forall>i \<in> set js. np_len (arrs ! i) = Inr (shape arr ! i) then Inr ()
      else Inl AssertionError)"
  using assms(4)
proof (induction js)
  case Nil
  then show ?case by simp
next
  case (Cons j js)
  have j: "j < length axs" using Cons.prems by simp
  have aj: "array_at h (axs ! j) = Some (arrs ! j)" "length arrs = length axs"
    using those_map_nth[OF assms(2)] j by simp_all
  then have "shape (arrs ! j) \<noteq> []" using assms(3) j by (simp add: list_all_length)
  then obtain k t where kt: "shape (arrs ! j) = k # t" by (cases "shape (arrs ! j)") auto
  obtain a where a: "axs ! j = PRef a" using array_at_deref[OF aj(1)] by (auto dest!: deref_SomeD)
  have len: "py_len h (axs ! j) = Inr k"
    using array_at_deref[OF aj(1)] kt a by (simp add: py_len_def np_len_def)
  have IH: "check_axes h arr axes js =
     (if \<forall>i \<in> set js. np_len (arrs ! i) = Inr (shape arr ! i) then Inr ()
      else Inl AssertionError)"
    using Cons by simp
  show ?case
    using j assms(1) len kt IH by (simp add: py_getitem_list np_len_def)
qed

lemma comprehension_getitem:
  assumes "deref h v = Some (OList xs)"
  shows "comprehension (py_getitem h v) [0 ..< length xs] = Inr xs"
proof -
  have "comprehension (py_getitem h v) [0 ..< length xs] = Inr (map (\<lambda>i. xs ! i) [0 ..< length xs])"
    using assms by (intro comprehension_Inr) (simp add: py_getitem_list)
  then show ?thesis by (simp add: map_nth)
qed

lemma those_array_at_new:
  "those (map (array_at (h @ map OArray arrs @ ys))
      (map (\<lambda>i. PRef (length h + i)) [0 ..< length arrs])) = Some arrs"
  by (rule those_map_SomeI) (simp_all add: array_at_def deref_def nth_append)

lemma deepcopy_array:
  "deref h v = Some (OArray a) \<Longrightarrow> deepcopy (Suc n) h v = Inr (PRef (length h), h @ [OArray a])"
  by (cases v) (auto simp: deref_def split: if_splits)

lemma deepcopy_atom: "is_atom v \<Longrightarrow> deepcopy (Suc n) h v = Inr (v, h)"
  by (cases v) simp_all

lemma deepcopy_each_atoms:
  "list_all is_atom xs \<Longrightarrow> deepcopy_each (deepcopy (Suc n)) h xs = Inr (xs, h)"
  by (induction xs) (simp_all add: deepcopy_atom del: deepcopy.simps)

lemma deepcopy_atom_list:
  assumes "deref h v = Some (OList xs)" "list_all is_atom xs"
  shows "deepcopy (Suc (Suc n)) h v = Inr (PRef (length h), h @ [OList xs])"
proof -
  obtain a where a: "v = PRef a" using assms(1) by (auto dest!: deref_SomeD)
  show ?thesis
    using assms(1) deepcopy_each_atoms[OF assms(2), of n h] unfolding a by simp
qed

lemma deepcopy_each_arrays:
  "those (map (array_at h) vs) = Some arrs \<Longrightarrow>
   deepcopy_each (deepcopy (Suc n)) h vs =
     Inr (map (\<lambda>i. PRef (length h + i)) [0 ..< length vs], h @ map OArray arrs)"
proof (induction vs arbitrary: h arrs)
  case Nil
  then show ?case by simp
next
  case (Cons v vs)
  then obtain a as where a: "array_at h v = Some a" "those (map (array_at h) vs) = Some as"
      "arrs = a # as"
    by (auto split: option.splits)
  have "those (map (array_at (h @ [OArray a])) vs) = Some as"
  proof -
    have eq: "map (array_at (h @ [OArray a])) vs = map (array_at h) vs"
    proof (rule map_cong[OF refl])
      fix x assume "x \<in> set vs"
      then obtain i where i: "i < length vs" "x = vs ! i" by (auto simp: in_set_conv_nth)
      then have "array_at h x = Some (as ! i)" using those_map_nth[OF a(2)] by simp
      then show "array_at (h @ [OArray a]) x = array_at h x" by (simp add: array_at_append)
    qed
    show ?thesis unfolding eq by (rule a(2))
  qed
  from Cons.IH[OF this, of ] a(3) deepcopy_array[OF array_at_deref[OF a(1)], of n]
  show ?case
    by (simp add: map_upt_Suc del: upt_Suc deepcopy.simps)
qed

lemma deepcopy_array_list:
  assumes "deref h v = Some (OList vs)" "those (map (array_at h) vs) = Some arrs"
  shows "deepcopy (Suc (Suc n)) h v =
     Inr (PRef (length h + length vs),
          h @ map OArray arrs @ [OList (map (\<lambda>i. PRef (length h + i)) [0 ..< length vs])])"
proof -
  obtain a where a: "v = PRef a" using assms(1) by (auto dest!: deref_SomeD)
  have la: "length arrs = length vs" using those_map_nth[OF assms(2)] by simp
  show ?thesis
    using assms(1) deepcopy_each_arrays[OF assms(2), of n] la unfolding a by simp
qed

lemma those_array_at_append:
  assumes "those (map (array_at h) vs) = Some arrs"
  shows "those (map (array_at (h @ ys)) vs) = Some arrs"
proof (rule those_map_SomeI)
  show "length arrs = length vs" using those_map_nth[OF assms] by simp
  fix i assume "i < length vs"
  then have "array_at h (vs ! i) = Some (arrs ! i)" using those_map_nth[OF assms] by simp
  then show "array_at (h @ ys) (vs ! i) = Some (arrs ! i)" by (rule array_at_append)
qed

lemma view_of_append:
  assumes "view_of h d = Some v"
  shows "view_of (h @ ys) d = Some v"
proof -
  obtain dv av nv uv axs where a:
    "map_of d ''data'' = Some dv" "map_of d ''axes'' = Some av"
    "map_of d ''names'' = Some nv" "map_of d ''units'' = Some uv"
    "deref h dv = Some (OArray (dv_data v))" "deref h av = Some (OList axs)"
    "deref h nv = Some (OList (dv_names v))" "deref h uv = Some (OList (dv_units v))"
    "those (map (array_at h) axs) = Some (dv_axes v)"
    "list_all is_atom (dv_names v)" "list_all is_atom (dv_units v)"
    using view_ofD[OF assms] by (elim exE conjE) (rule that, assumption+)
  show ?thesis
    using a(1-4) deref_append[OF a(5), of ys] deref_append[OF a(6), of ys]
      deref_append[OF a(7), of ys] deref_append[OF a(8), of ys]
      those_array_at_append[OF a(9), of ys] a(10) a(11)
    by (simp add: view_of_def)
qed

lemma dict_of_keys4:
  assumes "map fst dict = [''data'', ''axes'', ''names'', ''units'']"
  shows "\<exists>dv av nv uv. dict = [(''data'', dv), (''axes'', av), (''names'', nv), (''units'', uv)]"
  using assms by (auto simp: map_eq_Cons_conv)

lemma deepcopy_data:
  assumes "deref h (PRef c) = Some (OInst dict)"
    "map fst dict = [''data'', ''axes'', ''names'', ''units'']" "view_of h dict = Some v"
  shows "\<exists>r ys rdict. deepcopy (Suc (Suc (Suc n))) h (PRef c) = Inr (r, h @ ys) \<and>
     deref (h @ ys) r = Some (OInst rdict) \<and>
     map fst rdict = [''data'', ''axes'', ''names'', ''units''] \<and>
     view_of (h @ ys) rdict = Some v"
proof -
  obtain dv av nv uv where dict:
    "dict = [(''data'', dv), (''axes'', av), (''names'', nv), (''units'', uv)]"
    using dict_of_keys4[OF assms(2)] by blast
  obtain dv' av' nv' uv' axs where a0:
    "map_of dict ''data'' = Some dv'" "map_of dict ''axes'' = Some av'"
    "map_of dict ''names'' = Some nv'" "map_of dict ''units'' = Some uv'"
    "deref h dv' = Some (OArray (dv_data v))" "deref h av' = Some (OList axs)"
    "deref h nv' = Some (OList (dv_names v))" "deref h uv' = Some (OList (dv_units v))"
    "those (map (array_at h) axs) = Some (dv_axes v)"
    "list_all is_atom (dv_names v)" "list_all is_atom (dv_units v)"
    using view_ofD[OF assms(3)] by (elim exE conjE) (rule that, assumption+)
  have e: "dv' = dv" "av' = av" "nv' = nv" "uv' = uv" using a0(1-4) unfolding dict by simp_all
  note a = a0(5-11)[unfolded e]
  define arr where "arr = dv_data v"
  define arrs where "arrs = dv_axes v"
  define ns where "ns = dv_names v"
  define us where "us = dv_units v"
  define k where "k = length axs"
  have la: "length arrs = k" using those_map_nth[OF a(5)] by (simp add: arrs_def k_def)
  define h1 where "h1 = h @ [OArray arr]"
  define refs where "refs = map (\<lambda>i. PRef (length h1 + i)) [0 ..< k]"
  define h2 where "h2 = h1 @ map OArray arrs @ [OList refs]"
  define h3 where "h3 = h2 @ [OList ns]"
  define h4 where "h4 = h3 @ [OList us]"
  define rdict where "rdict = [(''data'', PRef (length h)), (''axes'', PRef (length h1 + k)),
      (''names'', PRef (length h2)), (''units'', PRef (length h3))]"
  have s1: "deepcopy (Suc (Suc n)) h dv = Inr (PRef (length h), h1)"
    unfolding h1_def arr_def by (rule deepcopy_array[OF a(1)])
  have "deref h1 av = Some (OList axs)" "those (map (array_at h1) axs) = Some arrs"
    unfolding h1_def arrs_def
    using deref_append[OF a(2)] those_array_at_append[OF a(5)] by simp_all
  then have s2: "deepcopy (Suc (Suc n)) h1 av = Inr (PRef (length h1 + k), h2)"
    unfolding h2_def refs_def k_def by (rule deepcopy_array_list)
  have "deref h2 nv = Some (OList ns)"
    unfolding h2_def h1_def ns_def using deref_append[OF a(3)] by simp
  then have s3: "deepcopy (Suc (Suc n)) h2 nv = Inr (PRef (length h2), h3)"
    unfolding h3_def using a(6) by (intro deepcopy_atom_list) (simp_all add: ns_def)
  have "deref h3 uv = Some (OList us)"
    unfolding h3_def h2_def h1_def us_def using deref_append[OF a(4)] by simp
  then have s4: "deepcopy (Suc (Suc n)) h3 uv = Inr (PRef (length h3), h4)"
    unfolding h4_def using a(7) by (intro deepcopy_atom_list) (simp_all add: us_def)
  have each: "deepcopy_each (deepcopy (Suc (Suc n))) h [dv, av, nv, uv]
     = Inr ([PRef (length h), PRef (length h1 + k), PRef (length h2), PRef (length h3)], h4)"
    using s1 s2 s3 s4 by (simp del: deepcopy.simps)
  have r: "deepcopy (Suc (Suc (Suc n))) h (PRef c) = Inr (PRef (length h4), h4 @ [OInst rdict])"
    using assms(1) each unfolding dict rdict_def by (simp del: deepcopy.simps(2)[of "Suc _"])
  define ys where "ys = [OArray arr] @ map OArray arrs @ [OList refs, OList ns, OList us, OInst rdict]"
  have hy: "h4 @ [OInst rdict] = h @ ys"
    by (simp add: ys_def h4_def h3_def h2_def h1_def)
  have len: "length h1 = length h + 1" "length h2 = length h + k + 2" "length h3 = length h + k + 3"
    "length h4 = length h + k + 4"
    using la by (simp_all add: h1_def h2_def h3_def h4_def)
  have d0: "deref (h @ ys) (PRef (length h4)) = Some (OInst rdict)"
    using la len by (simp add: ys_def deref_def nth_append)
  have d1: "deref (h @ ys) (PRef (length h)) = Some (OArray arr)"
    by (simp add: ys_def deref_def nth_append)
  have d2: "deref (h @ ys) (PRef (length h1 + k)) = Some (OList refs)"
    using la len by (simp add: ys_def deref_def nth_append)
  have d3: "deref (h @ ys) (PRef (length h2)) = Some (OList ns)"
    using la len by (simp add: ys_def deref_def nth_append)
  have d4: "deref (h @ ys) (PRef (length h3)) = Some (OList us)"
    using la len by (simp add: ys_def deref_def nth_append)
  have d5: "those (map (array_at (h @ ys)) refs) = Some arrs"
  proof -
    have "h @ ys = h1 @ map OArray arrs @ [OList refs, OList ns, OList us, OInst rdict]"
      by (simp add: ys_def h1_def)
    then show ?thesis
      unfolding refs_def using those_array_at_new[of h1 arrs] la by simp
  qed
  have vw: "view_of (h @ ys) rdict = Some v"
    using d1 d2 d3 d4 d5 a(6) a(7)
    by (simp add: view_of_def rdict_def arr_def arrs_def ns_def us_def)
  show ?thesis
    using r d0 vw unfolding hy by (auto simp: rdict_def)
qed

section \<open>Data: the claims\<close>

text \<open>
  Claim C8, as the code has it.  \<open>__eq__\<close> reads \<open>other.__dict__\<close> first, so an operand
  without an attribute dictionary (an integer, \<open>None\<close>) raises \<open>AttributeError\<close>.  For
  two instances whose attributes are of the types the constructor stores (whatever
  other attributes they carry) it returns a truth value and does not raise: \<open>True\<close>
  when the attribute names agree and the views are equal, \<open>False\<close> on any mismatch of
  attribute names, shapes or values.
\<close>

theorem equals_returns_on_data:
  assumes "deref h s = Some (OInst d1)" "view_of h d1 = Some v1"
    and "deref h t = Some (OInst d2)" "view_of h d2 = Some v2"
  shows "\<exists>b. Data_eq h s t = Inr b \<and>
     (b \<longleftrightarrow> sort (map fst d1) = sort (map fst d2) \<and> view_eq v1 v2)"
  using Data_eq_view[OF assms] by simp

theorem equals_returns_on_data_witness:
  "deref [OArray \<lparr>dtype = Float64, shape = [2], elems = [FloatV (Fin 1), FloatV (Fin 2)]\<rparr>,
          OArray \<lparr>dtype = Int64, shape = [2], elems = [IntV 0, IntV 10]\<rparr>,
          OList [PRef 1], OList [PStr ''time''], OList [PStr ''ms''],
          OInst [(''data'', PRef 0), (''axes'', PRef 2), (''names'', PRef 3), (''units'', PRef 4)],
          OInst [(''data'', PRef 1), (''axes'', PRef 2), (''names'', PRef 3), (''units'', PRef 4),
                 (''extra'', PInt 1)]]
     (PRef 5)
    = Some (OInst [(''data'', PRef 0), (''axes'', PRef 2), (''names'', PRef 3),
                   (''units'', PRef 4)]) \<and>
   (\<exists>b. Data_eq
         [OArray \<lparr>dtype = Float64, shape = [2], elems = [FloatV (Fin 1), FloatV (Fin 2)]\<rparr>,
          OArray \<lparr>dtype = Int64, shape = [2], elems = [IntV 0, IntV 10]\<rparr>,
          OList [PRef 1], OList [PStr ''time''], OList [PStr ''ms''],
          OInst [(''data'', PRef 0), (''axes'', PRef 2), (''names'', PRef 3), (''units'', PRef 4)],
          OInst [(''data'', PRef 1), (''axes'', PRef 2), (''names'', PRef 3), (''units'', PRef 4),
                 (''extra'', PInt 1)]]
         (PRef 5) (PRef 6) = Inr b \<and> \<not> b)"
proof -
  let ?h = "[OArray \<lparr>dtype = Float64, shape = [2], elems = [FloatV (Fin 1), FloatV (Fin 2)]\<rparr>,
          OArray \<lparr>dtype = Int64, shape = [2], elems = [IntV 0, IntV 10]\<rparr>,
          OList [PRef 1], OList [PStr ''time''], OList [PStr ''ms''],
          OInst [(''data'', PRef 0), (''axes'', PRef 2), (''names'', PRef 3), (''units'', PRef 4)],
          OInst [(''data'', PRef 1), (''axes'', PRef 2), (''names'', PRef 3), (''units'', PRef 4),
                 (''extra'', PInt 1)]]"
  let ?d1 = "[(''data'', PRef 0), (''axes'', PRef 2), (''names'', PRef 3), (''units'', PRef 4)]"
  let ?d2 = "[(''data'', PRef 1), (''axes'', PRef 2), (''names'', PRef 3), (''units'', PRef 4),
                 (''extra'', PInt 1)]"
  let ?ax = "\<lparr>dtype = Int64, shape = [2], elems = [IntV 0, IntV 10]\<rparr>"
  have h1: "deref ?h (PRef 5) = Some (OInst ?d1)" by (simp add: deref_def)
  have h2: "view_of ?h ?d1 = Some \<lparr>dv_data = \<lparr>dtype = Float64, shape = [2],
        elems = [FloatV (Fin 1), FloatV (Fin 2)]\<rparr>, dv_axes = [?ax],
        dv_names = [PStr ''time''], dv_units = [PStr ''ms'']\<rparr>"
    by (simp add: view_of_def deref_def array_at_def)
  have h3: "deref ?h (PRef 6) = Some (OInst ?d2)" by (simp add: deref_def)
  have h4: "view_of ?h ?d2 = Some \<lparr>dv_data = ?ax, dv_axes = [?ax],
        dv_names = [PStr ''time''], dv_units = [PStr ''ms'']\<rparr>"
    by (simp add: view_of_def deref_def array_at_def)
  have k: "length (sort (map fst ?d1)) \<noteq> length (sort (map fst ?d2))"
    by (simp del: sort_key_simps)
  then have "sort (map fst ?d1) \<noteq> sort (map fst ?d2)" by metis
  then show ?thesis
    using h1 equals_returns_on_data[OF h1 h2 h3 h4] by blast
qed

theorem equals_raises_counterexample:
  "valid_data
     [OArray \<lparr>dtype = Float64, shape = [2], elems = [FloatV (Fin 1), FloatV (Fin 2)]\<rparr>,
      OArray \<lparr>dtype = Int64, shape = [2], elems = [IntV 0, IntV 10]\<rparr>,
      OList [PRef 1], OList [PStr ''time''], OList [PStr ''ms''],
      OInst [(''data'', PRef 0), (''axes'', PRef 2), (''names'', PRef 3), (''units'', PRef 4)]]
     (PRef 5) \<and>
   Data_eq
     [OArray \<lparr>dtype = Float64, shape = [2], elems = [FloatV (Fin 1), FloatV (Fin 2)]\<rparr>,
      OArray \<lparr>dtype = Int64, shape = [2], elems = [IntV 0, IntV 10]\<rparr>,
      OList [PRef 1], OList [PStr ''time''], OList [PStr ''ms''],
      OInst [(''data'', PRef 0), (''axes'', PRef 2), (''names'', PRef 3), (''units'', PRef 4)]]
     (PRef 5) (PInt 5) = Inl AttributeError"
  by (simp add: valid_data_def view_of_def deref_def array_at_def data_invariant_def
      wf_ndarray_def np_len_def Data_eq_def inst_dict_def)

lemma is_str_imp_atom: "is_str x \<Longrightarrow> is_atom x"
  by (cases x) simp_all

lemma Data_init_result:
  assumes "deref h data = Some (OArray arr)" "deref h axes = Some (OList axs)"
    "those (map (array_at h) axs) = Some arrs" "list_all (\<lambda>a. shape a \<noteq> []) arrs"
    "deref h names = Some (OList ns)" "deref h units = Some (OList us)"
  shows "Data_init h data axes names units =
     (if data_invariant \<lparr>dv_data = arr, dv_axes = arrs, dv_names = ns, dv_units = us\<rparr>
      then Inr (PRef (length h + length axs + 1),
                h @ map OArray arrs
                  @ [OList (map (\<lambda>i. PRef (length h + i)) [0 ..< length axs]),
                     OInst [(''data'', data), (''axes'', PRef (length h + length axs)),
                            (''names'', names), (''units'', units)]])
      else Inl AssertionError)"
proof -
  have la: "length arrs = length axs" using those_map_nth[OF assms(3)] by simp
  have b: "as_ndarray h data = Inr arr" "py_len h axes = Inr (length axs)"
    "py_len h names = Inr (length ns)" "py_len h units = Inr (length us)"
    using assms by (simp_all add: as_ndarray_def py_len_list)
  show ?thesis
  proof (cases "length (shape arr) = length axs \<and> length axs = length ns \<and> length ns = length us")
    case False
    then show ?thesis using b la by (auto simp: Data_init_def data_invariant_def)
  next
    case True
    have ck: "check_axes h arr axes [0 ..< length (shape arr)] =
      (if \<forall>i \<in> set [0 ..< length (shape arr)]. np_len (arrs ! i) = Inr (shape arr ! i)
       then Inr () else Inl AssertionError)"
      using True by (intro check_axes_arrays[OF assms(2) assms(3) assms(4)]) simp
    have iff: "(\<forall>i \<in> set [0 ..< length (shape arr)]. np_len (arrs ! i) = Inr (shape arr ! i))
       \<longleftrightarrow> list_all2 (\<lambda>a n. np_len a = Inr n) arrs (shape arr)"
      using True la by (auto simp: list_all2_conv_all_nth)
    show ?thesis
    proof (cases "list_all2 (\<lambda>a n. np_len a = Inr n) arrs (shape arr)")
      case False
      have nck: "check_axes h arr axes [0 ..< length (shape arr)] = Inl AssertionError"
        unfolding ck using iff False by simp
      have "\<not> data_invariant \<lparr>dv_data = arr, dv_axes = arrs, dv_names = ns, dv_units = us\<rparr>"
        using False by (simp add: data_invariant_def)
      then show ?thesis using True b nck by (simp add: Data_init_def)
    next
      case ok: True
      have inv: "data_invariant \<lparr>dv_data = arr, dv_axes = arrs, dv_names = ns, dv_units = us\<rparr>"
        using True ok la by (simp add: data_invariant_def)
      have yck: "check_axes h arr axes [0 ..< length (shape arr)] = Inr ()"
        unfolding ck using iff ok by simp
      have cg: "comprehension (py_getitem h axes) [0 ..< length axs] = Inr axs"
        using comprehension_getitem[OF assms(2)] .
      show ?thesis
        using True b yck inv la cg np_array_each_arrays[OF assms(3)]
        by (simp add: Data_init_def Let_def)
    qed
  qed
qed

text \<open>
  Claim C5.  With \<open>data\<close> an ndarray, \<open>axes\<close> a list of ndarrays that have a leading
  axis, and \<open>names\<close> and \<open>units\<close> lists of strings, the constructor raises
  \<open>AssertionError\<close> (the specification's \<open>InvalidShapeError\<close>) whenever \<open>data.ndim\<close>,
  \<open>len(axes)\<close>, \<open>len(names)\<close> and \<open>len(units)\<close> are not all equal or some
  \<open>len(axes[i])\<close> is not \<open>data.shape[i]\<close>; otherwise it returns an instance that holds
  the data array, copies of the axes, the names and the units, so that every axis is as
  long as the dimension it describes.
\<close>

theorem Data_init_validates:
  assumes "deref h data = Some (OArray arr)" "deref h axes = Some (OList axs)"
    "those (map (array_at h) axs) = Some arrs" "list_all (\<lambda>a. shape a \<noteq> []) arrs"
    "deref h names = Some (OList ns)" "deref h units = Some (OList us)"
    "list_all is_str ns" "list_all is_str us"
  shows "if length (shape arr) = length arrs \<and> length arrs = length ns \<and>
            length ns = length us \<and>
            (\<forall>i < length (shape arr). np_len (arrs ! i) = Inr (shape arr ! i))
         then \<exists>d h' dict v. Data_init h data axes names units = Inr (d, h') \<and>
                deref h' d = Some (OInst dict) \<and> view_of h' dict = Some v \<and>
                v = \<lparr>dv_data = arr, dv_axes = arrs, dv_names = ns, dv_units = us\<rparr> \<and>
                (\<forall>i < length (shape (dv_data v)).
                    np_len (dv_axes v ! i) = Inr (shape (dv_data v) ! i))
         else Data_init h data axes names units = Inl AssertionError"
proof -
  let ?v = "\<lparr>dv_data = arr, dv_axes = arrs, dv_names = ns, dv_units = us\<rparr>"
  let ?c = "length (shape arr) = length arrs \<and> length arrs = length ns \<and>
            length ns = length us \<and>
            (\<forall>i < length (shape arr). np_len (arrs ! i) = Inr (shape arr ! i))"
  have la: "length arrs = length axs" using those_map_nth[OF assms(3)] by simp
  have c: "data_invariant ?v \<longleftrightarrow> ?c"
    by (auto simp: data_invariant_def list_all2_conv_all_nth)
  have at: "list_all is_atom ns" "list_all is_atom us"
    using assms(7,8) by (auto simp: list_all_iff is_str_imp_atom)
  show ?thesis
  proof (cases "data_invariant ?v")
    case False
    then have nc: "\<not> ?c" using c by blast
    have e: "Data_init h data axes names units = Inl AssertionError"
      by (simp only: Data_init_result[OF assms(1-6)] if_not_P[OF False])
    show ?thesis unfolding if_not_P[OF nc] by (rule e)
  next
    case True
    then have yc: "?c" using c by blast
    let ?h' = "h @ map OArray arrs
                  @ [OList (map (\<lambda>i. PRef (length h + i)) [0 ..< length axs]),
                     OInst [(''data'', data), (''axes'', PRef (length h + length axs)),
                            (''names'', names), (''units'', units)]]"
    let ?dict = "[(''data'', data), (''axes'', PRef (length h + length axs)),
                            (''names'', names), (''units'', units)]"
    have r: "Data_init h data axes names units = Inr (PRef (length h + length axs + 1), ?h')"
      by (simp only: Data_init_result[OF assms(1-6)] if_P[OF True])
    have d1: "deref ?h' (PRef (length h + length axs + 1)) = Some (OInst ?dict)"
      using la by (simp add: deref_def nth_append)
    have d2: "deref ?h' data = Some (OArray arr)" "deref ?h' names = Some (OList ns)"
      "deref ?h' units = Some (OList us)"
      using assms(1,5,6) by (simp_all add: deref_append)
    have d3: "deref ?h' (PRef (length h + length axs))
        = Some (OList (map (\<lambda>i. PRef (length h + i)) [0 ..< length axs]))"
      using la by (simp add: deref_def nth_append)
    have d4: "those (map (array_at ?h') (map (\<lambda>i. PRef (length h + i)) [0 ..< length axs]))
        = Some arrs"
      using those_array_at_new[of h arrs] la by simp
    have v: "view_of ?h' ?dict = Some ?v"
      using d2 d3 d4 at by (simp add: view_of_def)
    have ax: "\<forall>i < length (shape (dv_data ?v)).
        np_len (dv_axes ?v ! i) = Inr (shape (dv_data ?v) ! i)"
      using yc by simp
    have ex: "\<exists>d h' dict v. Data_init h data axes names units = Inr (d, h') \<and>
                deref h' d = Some (OInst dict) \<and> view_of h' dict = Some v \<and>
                v = ?v \<and>
                (\<forall>i < length (shape (dv_data v)).
                    np_len (dv_axes v ! i) = Inr (shape (dv_data v) ! i))"
      using r d1 v ax by blast
    show ?thesis unfolding if_P[OF yc] by (rule ex)
  qed
qed

theorem Data_init_validates_witness:
  "(\<exists>d h' dict.
      Data_init
        [OArray \<lparr>dtype = Float64, shape = [2, 1], elems = [FloatV (Fin 1), FloatV (Fin 2)]\<rparr>,
         OArray \<lparr>dtype = Int64, shape = [2], elems = [IntV 0, IntV 10]\<rparr>,
         OArray \<lparr>dtype = Int64, shape = [1], elems = [IntV 7]\<rparr>,
         OList [PRef 1, PRef 2], OList [PStr ''time'', PStr ''channel''],
         OList [PStr ''ms'', PStr ''#''], OList [PRef 1, PRef 2, PRef 2]]
        (PRef 0) (PRef 3) (PRef 4) (PRef 5) = Inr (d, h') \<and>
      deref h' d = Some (OInst dict) \<and>
      view_of h' dict =
        Some \<lparr>dv_data = \<lparr>dtype = Float64, shape = [2, 1],
                           elems = [FloatV (Fin 1), FloatV (Fin 2)]\<rparr>,
               dv_axes = [\<lparr>dtype = Int64, shape = [2], elems = [IntV 0, IntV 10]\<rparr>,
                          \<lparr>dtype = Int64, shape = [1], elems = [IntV 7]\<rparr>],
               dv_names = [PStr ''time'', PStr ''channel''],
               dv_units = [PStr ''ms'', PStr ''#'']\<rparr>) \<and>
   Data_init
        [OArray \<lparr>dtype = Float64, shape = [2, 1], elems = [FloatV (Fin 1), FloatV (Fin 2)]\<rparr>,
         OArray \<lparr>dtype = Int64, shape = [2], elems = [IntV 0, IntV 10]\<rparr>,
         OArray \<lparr>dtype = Int64, shape = [1], elems = [IntV 7]\<rparr>,
         OList [PRef 1, PRef 2], OList [PStr ''time'', PStr ''channel''],
         OList [PStr ''ms'', PStr ''#''], OList [PRef 1, PRef 2, PRef 2]]
        (PRef 0) (PRef 6) (PRef 4) (PRef 5) = Inl AssertionError"
proof -
  let ?a0 = "\<lparr>dtype = Float64, shape = [2, 1], elems = [FloatV (Fin 1), FloatV (Fin 2)]\<rparr>"
  let ?a1 = "\<lparr>dtype = Int64, shape = [2], elems = [IntV 0, IntV 10]\<rparr>"
  let ?a2 = "\<lparr>dtype = Int64, shape = [1], elems = [IntV 7]\<rparr>"
  let ?h = "[OArray ?a0, OArray ?a1, OArray ?a2,
         OList [PRef 1, PRef 2], OList [PStr ''time'', PStr ''channel''],
         OList [PStr ''ms'', PStr ''#''], OList [PRef 1, PRef 2, PRef 2]]"
  have h1: "deref ?h (PRef 0) = Some (OArray ?a0)" by (simp add: deref_def)
  have h2: "deref ?h (PRef 3) = Some (OList [PRef 1, PRef 2])" by (simp add: deref_def)
  have h2': "deref ?h (PRef 6) = Some (OList [PRef 1, PRef 2, PRef 2])" by (simp add: deref_def)
  have h3: "those (map (array_at ?h) [PRef 1, PRef 2]) = Some [?a1, ?a2]"
    by (simp add: array_at_def deref_def)
  have h3': "those (map (array_at ?h) [PRef 1, PRef 2, PRef 2]) = Some [?a1, ?a2, ?a2]"
    by (simp add: array_at_def deref_def)
  have h4: "list_all (\<lambda>a. shape a \<noteq> []) [?a1, ?a2]" by simp
  have h4': "list_all (\<lambda>a. shape a \<noteq> []) [?a1, ?a2, ?a2]" by simp
  have h5: "deref ?h (PRef 4) = Some (OList [PStr ''time'', PStr ''channel''])"
    by (simp add: deref_def)
  have h6: "deref ?h (PRef 5) = Some (OList [PStr ''ms'', PStr ''#''])" by (simp add: deref_def)
  have h7: "list_all is_str [PStr ''time'', PStr ''channel'']" by simp
  have h8: "list_all is_str [PStr ''ms'', PStr ''#'']" by simp
  have c: "\<forall>i < length (shape ?a0). np_len ([?a1, ?a2] ! i) = Inr (shape ?a0 ! i)"
    by (simp add: All_less_Suc np_len_def)
  show ?thesis
    using Data_init_validates[OF h1 h2 h3 h4 h5 h6 h7 h8]
      Data_init_validates[OF h1 h2' h3' h4' h5 h6 h7 h8] c
    by (simp add: All_less_Suc np_len_def)
qed

lemma scalar_eq_refl: "\<not> is_nan x \<Longrightarrow> scalar_eq x x"
  by (cases x rule: is_nan.cases) simp_all

lemma list_all2_scalar_eq_refl:
  "list_all (\<lambda>x. \<not> is_nan x) xs \<Longrightarrow> list_all2 scalar_eq xs xs"
  by (induction xs) (simp_all add: scalar_eq_refl)

lemma view_eq_refl:
  assumes "nan_free v"
  shows "view_eq v v"
proof -
  have a: "list_all2 scalar_eq (elems (dv_data v)) (elems (dv_data v))"
    using assms by (simp add: nan_free_def list_all2_scalar_eq_refl)
  have "list_all2 scalar_eq (elems a) (elems a)" if "a \<in> set (dv_axes v)" for a
  proof -
    have "list_all (\<lambda>x. \<not> is_nan x) (elems a)"
      using assms that by (simp add: nan_free_def list_all_iff)
    then show ?thesis by (rule list_all2_scalar_eq_refl)
  qed
  then have b: "list_all2 (\<lambda>a b. list_all2 scalar_eq (elems a) (elems b)) (dv_axes v) (dv_axes v)"
    by (simp add: list_all2_same)
  show ?thesis using a b by (simp add: view_eq_def np_array_equal_def list_all2_same)
qed

lemma Data_copy_unfold:
  assumes "deref h d = Some (OInst dict)"
  shows "Data_copy limit h d kwargs =
     deepcopy limit (h @ [OInst (fold (\<lambda>(name, value). dict_set name value) kwargs dict)])
       (PRef (length h))"
  using assms by (simp add: Data_copy_def inst_dict_def Let_def del: deepcopy.simps)

lemma Data_copy_view:
  assumes "deref h d = Some (OInst dict)"
    and "map fst (fold (\<lambda>(name, value). dict_set name value) kwargs dict)
           = [''data'', ''axes'', ''names'', ''units'']"
    and "view_of h (fold (\<lambda>(name, value). dict_set name value) kwargs dict) = Some v"
  shows "\<exists>r ys rdict. Data_copy (Suc (Suc (Suc n))) h d kwargs = Inr (r, h @ ys) \<and>
     deref (h @ ys) r = Some (OInst rdict) \<and>
     map fst rdict = [''data'', ''axes'', ''names'', ''units''] \<and>
     view_of (h @ ys) rdict = Some v"
proof -
  let ?d' = "fold (\<lambda>(name, value). dict_set name value) kwargs dict"
  let ?h0 = "h @ [OInst ?d']"
  have d0: "deref ?h0 (PRef (length h)) = Some (OInst ?d')" by (simp add: deref_def)
  have v0: "view_of ?h0 ?d' = Some v" using view_of_append[OF assms(3)] .
  obtain r ys rdict where r: "deepcopy (Suc (Suc (Suc n))) ?h0 (PRef (length h)) = Inr (r, ?h0 @ ys)"
    "deref (?h0 @ ys) r = Some (OInst rdict)"
    "map fst rdict = [''data'', ''axes'', ''names'', ''units'']"
    "view_of (?h0 @ ys) rdict = Some v"
    using deepcopy_data[OF d0 assms(2) v0, of n] by (elim exE conjE) (rule that, assumption+)
  have e: "?h0 @ ys = h @ (OInst ?d' # ys)" by simp
  have f1: "Data_copy (Suc (Suc (Suc n))) h d kwargs = Inr (r, h @ (OInst ?d' # ys))"
    using r(1) unfolding Data_copy_unfold[OF assms(1)] e .
  have f2: "deref (h @ (OInst ?d' # ys)) r = Some (OInst rdict)"
    using r(2) unfolding e .
  have f3: "view_of (h @ (OInst ?d' # ys)) rdict = Some v"
    using r(4) unfolding e .
  show ?thesis
    by (rule exI[of _ r], rule exI[of _ "OInst ?d' # ys"], rule exI[of _ rdict])
      (intro conjI f1 f2 f3 r(3))
qed

text \<open>
  Claim C6, as the code has it.  \<open>__eq__\<close> compares the arrays with \<open>np.array_equal\<close>
  and \<open>==\<close>, under which NaN is not equal to itself, so a copy of an instance that
  holds a NaN is not equal to the instance.  For a valid instance whose data and axes
  hold no NaN, \<open>d.copy() == d\<close> is \<open>True\<close> (the deep copy needs to descend three levels:
  the instance, its lists, their arrays).
\<close>

theorem copy_equals_original:
  assumes "valid_data h d" "deref h d = Some (OInst dict)" "view_of h dict = Some v"
    "nan_free v"
  shows "\<exists>r h'. Data_copy (Suc (Suc (Suc n))) h d [] = Inr (r, h') \<and>
     Data_eq h' r d = Inr True"
proof -
  have k: "map fst dict = [''data'', ''axes'', ''names'', ''units'']"
    using assms(1,2) by (simp add: valid_data_def)
  obtain r ys rdict where r: "Data_copy (Suc (Suc (Suc n))) h d [] = Inr (r, h @ ys)"
    "deref (h @ ys) r = Some (OInst rdict)"
    "map fst rdict = [''data'', ''axes'', ''names'', ''units'']"
    "view_of (h @ ys) rdict = Some v"
    using Data_copy_view[OF assms(2), of "[]" v n] k assms(3) by auto
  have d: "deref (h @ ys) d = Some (OInst dict)" using deref_append[OF assms(2)] .
  have v: "view_of (h @ ys) dict = Some v" using view_of_append[OF assms(3)] .
  have "Data_eq (h @ ys) r d = Inr True"
    using Data_eq_view[OF r(2) r(4) d v] r(3) k view_eq_refl[OF assms(4)] by simp
  then show ?thesis using r(1) by blast
qed

theorem copy_equals_original_witness:
  "valid_data
     [OArray \<lparr>dtype = Float64, shape = [2], elems = [FloatV (Fin 1), FloatV (Fin 2)]\<rparr>,
      OArray \<lparr>dtype = Int64, shape = [2], elems = [IntV 0, IntV 10]\<rparr>,
      OList [PRef 1], OList [PStr ''time''], OList [PStr ''ms''],
      OInst [(''data'', PRef 0), (''axes'', PRef 2), (''names'', PRef 3), (''units'', PRef 4)]]
     (PRef 5) \<and>
   (\<exists>r h'. Data_copy 3
     [OArray \<lparr>dtype = Float64, shape = [2], elems = [FloatV (Fin 1), FloatV (Fin 2)]\<rparr>,
      OArray \<lparr>dtype = Int64, shape = [2], elems = [IntV 0, IntV 10]\<rparr>,
      OList [PRef 1], OList [PStr ''time''], OList [PStr ''ms''],
      OInst [(''data'', PRef 0), (''axes'', PRef 2), (''names'', PRef 3), (''units'', PRef 4)]]
     (PRef 5) [] = Inr (r, h') \<and> Data_eq h' r (PRef 5) = Inr True)"
proof -
  let ?a0 = "\<lparr>dtype = Float64, shape = [2], elems = [FloatV (Fin 1), FloatV (Fin 2)]\<rparr>"
  let ?a1 = "\<lparr>dtype = Int64, shape = [2], elems = [IntV 0, IntV 10]\<rparr>"
  let ?dict = "[(''data'', PRef 0), (''axes'', PRef 2), (''names'', PRef 3), (''units'', PRef 4)]"
  let ?h = "[OArray ?a0, OArray ?a1, OList [PRef 1], OList [PStr ''time''], OList [PStr ''ms''],
      OInst ?dict]"
  let ?v = "\<lparr>dv_data = ?a0, dv_axes = [?a1], dv_names = [PStr ''time''],
      dv_units = [PStr ''ms'']\<rparr>"
  have h2: "deref ?h (PRef 5) = Some (OInst ?dict)" by (simp add: deref_def)
  have h3: "view_of ?h ?dict = Some ?v" by (simp add: view_of_def deref_def array_at_def)
  have h1: "valid_data ?h (PRef 5)"
    using h2 h3 by (simp add: valid_data_def data_invariant_def wf_ndarray_def np_len_def)
  have h4: "nan_free ?v" by (simp add: nan_free_def)
  have three: "Suc (Suc (Suc 0)) = 3" by simp
  show ?thesis
    using h1 copy_equals_original[OF h1 h2 h3 h4, of 0] unfolding three by simp
qed

theorem copy_not_equal_counterexample:
  "valid_data
     [OArray \<lparr>dtype = Float64, shape = [2], elems = [FloatV (Fin 1), FloatV NaN]\<rparr>,
      OArray \<lparr>dtype = Int64, shape = [2], elems = [IntV 0, IntV 10]\<rparr>,
      OList [PRef 1], OList [PStr ''time''], OList [PStr ''ms''],
      OInst [(''data'', PRef 0), (''axes'', PRef 2), (''names'', PRef 3), (''units'', PRef 4)]]
     (PRef 5) \<and>
   Data_copy 3
     [OArray \<lparr>dtype = Float64, shape = [2], elems = [FloatV (Fin 1), FloatV NaN]\<rparr>,
      OArray \<lparr>dtype = Int64, shape = [2], elems = [IntV 0, IntV 10]\<rparr>,
      OList [PRef 1], OList [PStr ''time''], OList [PStr ''ms''],
      OInst [(''data'', PRef 0), (''axes'', PRef 2), (''names'', PRef 3), (''units'', PRef 4)]]
     (PRef 5) []
   = Inr (PRef 12,
     [OArray \<lparr>dtype = Float64, shape = [2], elems = [FloatV (Fin 1), FloatV NaN]\<rparr>,
      OArray \<lparr>dtype = Int64, shape = [2], elems = [IntV 0, IntV 10]\<rparr>,
      OList [PRef 1], OList [PStr ''time''], OList [PStr ''ms''],
      OInst [(''data'', PRef 0), (''axes'', PRef 2), (''names'', PRef 3), (''units'', PRef 4)],
      OInst [(''data'', PRef 0), (''axes'', PRef 2), (''names'', PRef 3), (''units'', PRef 4)],
      OArray \<lparr>dtype = Float64, shape = [2], elems = [FloatV (Fin 1), FloatV NaN]\<rparr>,
      OArray \<lparr>dtype = Int64, shape = [2], elems = [IntV 0, IntV 10]\<rparr>,
      OList [PRef 8], OList [PStr ''time''], OList [PStr ''ms''],
      OInst [(''data'', PRef 7), (''axes'', PRef 9), (''names'', PRef 10),
             (''units'', PRef 11)]]) \<and>
   Data_eq
     [OArray \<lparr>dtype = Float64, shape = [2], elems = [FloatV (Fin 1), FloatV NaN]\<rparr>,
      OArray \<lparr>dtype = Int64, shape = [2], elems = [IntV 0, IntV 10]\<rparr>,
      OList [PRef 1], OList [PStr ''time''], OList [PStr ''ms''],
      OInst [(''data'', PRef 0), (''axes'', PRef 2), (''names'', PRef 3), (''units'', PRef 4)],
      OInst [(''data'', PRef 0), (''axes'', PRef 2), (''names'', PRef 3), (''units'', PRef 4)],
      OArray \<lparr>dtype = Float64, shape = [2], elems = [FloatV (Fin 1), FloatV NaN]\<rparr>,
      OArray \<lparr>dtype = Int64, shape = [2], elems = [IntV 0, IntV 10]\<rparr>,
      OList [PRef 8], OList [PStr ''time''], OList [PStr ''ms''],
      OInst [(''data'', PRef 7), (''axes'', PRef 9), (''names'', PRef 10),
             (''units'', PRef 11)]]
     (PRef 12) (PRef 5) = Inr False"
  by (simp add: valid_data_def view_of_def deref_def array_at_def data_invariant_def
      wf_ndarray_def np_len_def Data_copy_def Data_eq_def inst_dict_def getattr_def
      py_array_equal_def np_array_equal_def eval_nat_numeral Let_def)

subsection \<open>Copy with an override\<close>

lemma fresh_ext_refl: "fresh_ext h [] h"
  by (simp add: fresh_ext_def)

lemma fresh_ext_trans:
  assumes "fresh_ext h rs h1" "fresh_ext h1 rs' h2"
  shows "fresh_ext h (rs @ rs') h2"
proof -
  obtain ys where a: "h1 = h @ ys" "\<forall>r \<in> set rs. val_refs r \<subseteq> {length h ..< length h1}"
    "\<forall>ob \<in> set ys. refs_of ob \<subseteq> {length h ..< length h1}"
    using assms(1) unfolding fresh_ext_def by blast
  obtain zs where b: "h2 = h1 @ zs" "\<forall>r \<in> set rs'. val_refs r \<subseteq> {length h1 ..< length h2}"
    "\<forall>ob \<in> set zs. refs_of ob \<subseteq> {length h1 ..< length h2}"
    using assms(2) unfolding fresh_ext_def by blast
  have le: "length h \<le> length h1" "length h1 \<le> length h2" using a(1) b(1) by simp_all
  have s1: "{length h ..< length h1} \<subseteq> {length h ..< length h2}"
    and s2: "{length h1 ..< length h2} \<subseteq> {length h ..< length h2}"
    using le by auto
  have "h2 = h @ (ys @ zs)" using a(1) b(1) by simp
  moreover have "val_refs r \<subseteq> {length h ..< length h2}" if "r \<in> set (rs @ rs')" for r
  proof -
    from that consider "r \<in> set rs" | "r \<in> set rs'" by auto
    then show ?thesis
    proof cases
      case 1
      then have "val_refs r \<subseteq> {length h ..< length h1}" using a(2) by blast
      then show ?thesis using s1 by (rule subset_trans)
    next
      case 2
      then have "val_refs r \<subseteq> {length h1 ..< length h2}" using b(2) by blast
      then show ?thesis using s2 by (rule subset_trans)
    qed
  qed
  moreover have "refs_of ob \<subseteq> {length h ..< length h2}" if "ob \<in> set (ys @ zs)" for ob
  proof -
    from that consider "ob \<in> set ys" | "ob \<in> set zs" by auto
    then show ?thesis
    proof cases
      case 1
      then have "refs_of ob \<subseteq> {length h ..< length h1}" using a(3) by blast
      then show ?thesis using s1 by (rule subset_trans)
    next
      case 2
      then have "refs_of ob \<subseteq> {length h1 ..< length h2}" using b(3) by blast
      then show ?thesis using s2 by (rule subset_trans)
    qed
  qed
  ultimately show ?thesis unfolding fresh_ext_def by blast
qed

lemma deepcopy_each_fresh:
  assumes f: "\<And>h v r h'. f h v = Inr (r, h') \<Longrightarrow> fresh_ext h [r] h'"
  shows "deepcopy_each f h vs = Inr (rs, h') \<Longrightarrow> fresh_ext h rs h'"
proof (induction vs arbitrary: h rs h')
  case Nil
  then show ?case by (simp add: fresh_ext_refl)
next
  case (Cons v vs)
  then obtain r h1 rs' where s: "f h v = Inr (r, h1)" "deepcopy_each f h1 vs = Inr (rs', h')"
      "rs = r # rs'"
    by (auto simp: and_then_def split: sum.splits prod.splits)
  have "fresh_ext h ([r] @ rs') h'"
    using fresh_ext_trans[OF f[OF s(1)] Cons.IH[OF s(2)]] .
  then show ?case using s(3) by simp
qed

lemma fresh_ext_alloc:
  assumes "fresh_ext h rs h1" "refs_of ob \<subseteq> (\<Union>r \<in> set rs. val_refs r)"
  shows "fresh_ext h [PRef (length h1)] (h1 @ [ob])"
proof -
  obtain ys where a: "h1 = h @ ys" "\<forall>r \<in> set rs. val_refs r \<subseteq> {length h ..< length h1}"
    "\<forall>ob \<in> set ys. refs_of ob \<subseteq> {length h ..< length h1}"
    using assms(1) unfolding fresh_ext_def by blast
  have le: "length h \<le> length h1" using a(1) by simp
  have ro: "refs_of ob \<subseteq> {length h ..< length h1}" using assms(2) a(2) by blast
  have s1: "{length h ..< length h1} \<subseteq> {length h ..< length (h1 @ [ob])}" by auto
  have "h1 @ [ob] = h @ (ys @ [ob])" using a(1) by simp
  moreover have "val_refs r \<subseteq> {length h ..< length (h1 @ [ob])}"
    if "r \<in> set [PRef (length h1)]" for r
    using that le by auto
  moreover have "refs_of o' \<subseteq> {length h ..< length (h1 @ [ob])}" if "o' \<in> set (ys @ [ob])" for o'
  proof -
    from that consider "o' \<in> set ys" | "o' = ob" by auto
    then show ?thesis
    proof cases
      case 1
      then have "refs_of o' \<subseteq> {length h ..< length h1}" using a(3) by blast
      then show ?thesis using s1 by (rule subset_trans)
    next
      case 2
      then show ?thesis using ro s1 by blast
    qed
  qed
  ultimately show ?thesis unfolding fresh_ext_def by blast
qed

lemma refs_of_zip: "refs_of (OInst (zip ks ys)) \<subseteq> (\<Union>r \<in> set ys. val_refs r)"
  by (auto dest: set_zip_rightD)

lemma deepcopy_fresh: "deepcopy n h v = Inr (r, h') \<Longrightarrow> fresh_ext h [r] h'"
proof (induction n arbitrary: h v r h')
  case 0
  then show ?case by simp
next
  case (Suc n)
  show ?case
  proof (cases v)
    case (PRef a)
    show ?thesis
    proof (cases "deref h v")
      case None
      then show ?thesis using Suc.prems PRef by simp
    next
      case (Some ob)
      show ?thesis
      proof (cases ob)
        case (OArray arr)
        then have "r = PRef (length h)" "h' = h @ [OArray arr]"
          using Suc.prems PRef Some by simp_all
        then show ?thesis
          using fresh_ext_alloc[OF fresh_ext_refl, of "OArray arr" h] by simp
      next
        case (OList xs)
        then obtain ys h1 where s: "deepcopy_each (deepcopy n) h xs = Inr (ys, h1)"
            "r = PRef (length h1)" "h' = h1 @ [OList ys]"
          using Suc.prems PRef Some
          by (auto simp: and_then_def split: sum.splits prod.splits)
        have "fresh_ext h ys h1" using deepcopy_each_fresh[OF Suc.IH s(1)] .
        then show ?thesis
          unfolding s(2) s(3) by (rule fresh_ext_alloc) simp
      next
        case (OInst d)
        then obtain ys h1 where s: "deepcopy_each (deepcopy n) h (map snd d) = Inr (ys, h1)"
            "r = PRef (length h1)" "h' = h1 @ [OInst (zip (map fst d) ys)]"
          using Suc.prems PRef Some
          by (auto simp: and_then_def split: sum.splits prod.splits)
        have "fresh_ext h ys h1" using deepcopy_each_fresh[OF Suc.IH s(1)] .
        then show ?thesis
          unfolding s(2) s(3) by (rule fresh_ext_alloc) (rule refs_of_zip)
      qed
    qed
  qed (use Suc.prems in \<open>auto simp: fresh_ext_def\<close>)
qed

lemma reach_lt: "reach h a c \<Longrightarrow> c < length h"
  by (induction rule: reach.induct) simp_all

lemma reach_in_closed:
  assumes "reach h a c" "a \<in> R" "\<And>b. b \<in> R \<Longrightarrow> b < length h \<Longrightarrow> refs_of (h ! b) \<subseteq> R"
  shows "c \<in> R"
  using assms(1,2)
proof (induction rule: reach.induct)
  case (reach_self a)
  then show ?case by simp
next
  case (reach_step a b c)
  have b: "b \<in> R" using reach_step.IH reach_step.prems by simp
  have "b < length h" using reach_step.hyps(1) by (rule reach_lt)
  then show ?case using assms(3)[OF b] reach_step.hyps(2) by blast
qed

lemma fresh_ext_obj:
  assumes "fresh_ext h rs h'" "length h \<le> a" "deref h' (PRef a) = Some ob"
  shows "refs_of ob \<subseteq> {length h ..< length h'}"
proof -
  obtain ys where y: "h' = h @ ys"
    "\<forall>ob \<in> set ys. refs_of ob \<subseteq> {length h ..< length h'}"
    using assms(1) unfolding fresh_ext_def by auto
  have a: "a < length h'" "h' ! a = ob" using deref_SomeD[OF assms(3)] by auto
  have b2: "a - length h < length ys" using assms(2) a(1) unfolding y(1) by auto
  have "h' ! a = ys ! (a - length h)" using assms(2) unfolding y(1) by (simp add: nth_append)
  then have "ob \<in> set ys" using b2 a(2) by auto
  then show ?thesis using y(2) by blast
qed

lemma fresh_ext_reach:
  assumes "fresh_ext h [PRef a] h'" "reach h' a c"
  shows "length h \<le> c \<and> c < length h'"
proof -
  have a: "a \<in> {length h ..< length h'}"
    using assms(1) unfolding fresh_ext_def by auto
  have "c \<in> {length h ..< length h'}"
  proof (rule reach_in_closed[OF assms(2) a])
    fix b assume b: "b \<in> {length h ..< length h'}" "b < length h'"
    have b1: "length h \<le> b" using b(1) by simp
    have "deref h' (PRef b) = Some (h' ! b)" using b(2) by (simp add: deref_def)
    then show "refs_of (h' ! b) \<subseteq> {length h ..< length h'}"
      using fresh_ext_obj[OF assms(1) b1] by blast
  qed
  then show ?thesis by simp
qed

text \<open>
  The view of an instance depends only on the objects it refers to: two heaps that
  hold the same objects from address \<open>N\<close> on give the same view of an instance whose
  references, and those of the objects they lead to, are all at \<open>N\<close> or above.
\<close>

lemma view_of_agree:
  assumes v: "view_of h1 d = Some v"
    and ag: "\<And>a. N \<le> a \<Longrightarrow> deref h2 (PRef a) = deref h1 (PRef a)"
    and rd: "\<And>a. a \<in> refs_of (OInst d) \<Longrightarrow> N \<le> a"
    and cl: "\<And>a ob b. N \<le> a \<Longrightarrow> deref h1 (PRef a) = Some ob \<Longrightarrow> b \<in> refs_of ob \<Longrightarrow> N \<le> b"
  shows "view_of h2 d = Some v"
proof -
  obtain dv av nv uv axs where a:
    "map_of d ''data'' = Some dv" "map_of d ''axes'' = Some av"
    "map_of d ''names'' = Some nv" "map_of d ''units'' = Some uv"
    "deref h1 dv = Some (OArray (dv_data v))" "deref h1 av = Some (OList axs)"
    "deref h1 nv = Some (OList (dv_names v))" "deref h1 uv = Some (OList (dv_units v))"
    "those (map (array_at h1) axs) = Some (dv_axes v)"
    "list_all is_atom (dv_names v)" "list_all is_atom (dv_units v)"
    using view_ofD[OF v] by (elim exE conjE) (rule that, assumption+)
  have key: "deref h2 x = Some ob \<and> (\<exists>p. x = PRef p \<and> N \<le> p)"
    if m: "map_of d nm = Some x" and dr: "deref h1 x = Some ob" for nm x ob
  proof -
    obtain p where p: "x = PRef p" using deref_SomeD[OF dr] by blast
    have "(nm, x) \<in> set d" using map_of_SomeD[OF m] .
    then have "p \<in> refs_of (OInst d)" using p by force
    then have "N \<le> p" by (rule rd)
    then show ?thesis using ag[of p] dr p by simp
  qed
  have ax: "array_at h2 (axs ! i) = Some (dv_axes v ! i)" if i: "i < length axs" for i
  proof -
    have 1: "array_at h1 (axs ! i) = Some (dv_axes v ! i)"
      using those_map_nth[OF a(9)] i by simp
    obtain q where q: "axs ! i = PRef q" using deref_SomeD[OF array_at_deref[OF 1]] by blast
    obtain p where p: "av = PRef p" "N \<le> p" using key[OF a(2) a(6)] by blast
    have "PRef q \<in> set axs" using q i by (metis nth_mem)
    then have "q \<in> refs_of (OList axs)" by force
    then have "N \<le> q" using cl[OF p(2) a(6)[unfolded p(1)]] by blast
    then show ?thesis using 1 ag[of q] unfolding q by (simp add: array_at_def)
  qed
  have th: "those (map (array_at h2) axs) = Some (dv_axes v)"
  proof (rule those_map_SomeI)
    show "length (dv_axes v) = length axs" using those_map_nth[OF a(9)] by simp
  qed (rule ax)
  show ?thesis
    using a(1-4) conjunct1[OF key[OF a(1) a(5)]] conjunct1[OF key[OF a(2) a(6)]]
      conjunct1[OF key[OF a(3) a(7)]] conjunct1[OF key[OF a(4) a(8)]] th a(10) a(11)
    by (simp add: view_of_def)
qed

lemma map_fst_dict_set: "k \<in> set (map fst d) \<Longrightarrow> map fst (dict_set k w d) = map fst d"
proof (induction d)
  case Nil
  then show ?case by simp
next
  case (Cons x d)
  obtain k' v' where x: "x = (k', v')" by (cases x)
  show ?case
  proof (cases "k = k'")
    case True
    then show ?thesis by (simp add: x)
  next
    case False
    then have "k \<in> set (map fst d)" using Cons.prems by (simp add: x)
    then show ?thesis using Cons.IH False by (simp add: x)
  qed
qed

text \<open>
  Claim C7.  For a valid instance \<open>d\<close> and an override of one of its four attributes
  such that the overridden instance still reads as data array, axes, names and units
  (view \<open>v'\<close>, which is the view of \<open>d\<close> with that attribute replaced by the new value),
  \<open>d.copy(k=w)\<close> returns a new instance whose view is \<open>v'\<close>.  The heap as it was before
  the call is unchanged, so \<open>d\<close> and all its attributes are as before.  Every object
  reachable from the returned instance was created by the call: none is an object of
  \<open>d\<close> or of the override value.  Hence whatever is done afterwards to the objects that
  existed before the call (any heap \<open>hx\<close> in their place), the returned instance and
  its view stay the same.
\<close>

theorem copy_with_override:
  assumes "valid_data h d" "deref h d = Some (OInst dict)" "view_of h dict = Some v"
    and "k \<in> set [''data'', ''axes'', ''names'', ''units'']"
    and "view_of h (dict_set k w dict) = Some v'"
  shows "\<exists>a ys rdict.
     Data_copy (Suc (Suc (Suc n))) h d [(k, w)] = Inr (PRef a, h @ ys) \<and>
     deref (h @ ys) (PRef a) = Some (OInst rdict) \<and>
     view_of (h @ ys) rdict = Some v' \<and>
     deref (h @ ys) d = Some (OInst dict) \<and>
     view_of (h @ ys) dict = Some v \<and>
     (\<forall>c. reach (h @ ys) a c \<longrightarrow> length h < c) \<and>
     (\<forall>hx. length hx = length h \<longrightarrow>
        deref (hx @ ys) (PRef a) = Some (OInst rdict) \<and> view_of (hx @ ys) rdict = Some v')"
proof -
  define d' where "d' = dict_set k w dict"
  define N where "N = Suc (length h)"
  have k4: "map fst dict = [''data'', ''axes'', ''names'', ''units'']"
    using assms(1,2) by (simp add: valid_data_def)
  have fo: "fold (\<lambda>(name, value). dict_set name value) [(k, w)] dict = d'"
    by (simp add: d'_def)
  have kin: "k \<in> set (map fst dict)" using assms(4) unfolding k4 .
  have mk: "map fst d' = [''data'', ''axes'', ''names'', ''units'']"
    unfolding d'_def map_fst_dict_set[OF kin] by (rule k4)
  have vd: "view_of h d' = Some v'" using assms(5) unfolding d'_def .
  obtain r ys rdict where r:
    "Data_copy (Suc (Suc (Suc n))) h d [(k, w)] = Inr (r, h @ ys)"
    "deref (h @ ys) r = Some (OInst rdict)"
    "view_of (h @ ys) rdict = Some v'"
    using Data_copy_view[OF assms(2), of "[(k, w)]" v' n, unfolded fo, OF mk vd]
    by (elim exE conjE) (rule that, assumption+)
  obtain a where a: "r = PRef a" using deref_SomeD[OF r(2)] by blast
  have dc: "deepcopy (Suc (Suc (Suc n))) (h @ [OInst d']) (PRef (length h)) = Inr (PRef a, h @ ys)"
    using r(1) unfolding Data_copy_unfold[OF assms(2)] fo a .
  have fe: "fresh_ext (h @ [OInst d']) [PRef a] (h @ ys)"
    using dc by (rule deepcopy_fresh)
  have l0: "length (h @ [OInst d']) = N" by (simp add: N_def)
  have aN: "N \<le> a" using fe unfolding fresh_ext_def l0 by auto
  have c1: "deref (h @ ys) d = Some (OInst dict)" using deref_append[OF assms(2)] .
  have c2: "view_of (h @ ys) dict = Some v" using view_of_append[OF assms(3)] .
  have c3: "length h < c" if "reach (h @ ys) a c" for c
    using fresh_ext_reach[OF fe that] unfolding l0 by (simp add: N_def)
  have cl: "N \<le> b" if "N \<le> p" "deref (h @ ys) (PRef p) = Some ob" "b \<in> refs_of ob" for p ob b
  proof -
    have "length (h @ [OInst d']) \<le> p" using that(1) unfolding l0 .
    from fresh_ext_obj[OF fe this that(2)] that(3) have "b \<in> {N ..< length (h @ ys)}"
      unfolding l0 by blast
    then show ?thesis by simp
  qed
  have c4: "deref (hx @ ys) (PRef a) = Some (OInst rdict) \<and> view_of (hx @ ys) rdict = Some v'"
    if hx: "length hx = length h" for hx
  proof -
    have ag: "deref (hx @ ys) (PRef p) = deref (h @ ys) (PRef p)" if "N \<le> p" for p
      using that hx by (simp add: deref_def nth_append N_def)
    have ra: "deref (h @ ys) (PRef a) = Some (OInst rdict)" using r(2) unfolding a .
    have rd: "N \<le> b" if "b \<in> refs_of (OInst rdict)" for b
      using cl[OF aN ra that] .
    have "view_of (hx @ ys) rdict = Some v'"
      using r(3) ag rd cl by (rule view_of_agree)
    moreover have "deref (hx @ ys) (PRef a) = Some (OInst rdict)"
      using ag[OF aN] ra by simp
    ultimately show ?thesis by simp
  qed
  show ?thesis
    apply (rule exI[of _ a], rule exI[of _ ys], rule exI[of _ rdict])
    using r(1)[unfolded a] r(2)[unfolded a] r(3) c1 c2 c3 c4 by blast
qed

theorem copy_with_override_witness:
  "let h = [OArray \<lparr>dtype = Float64, shape = [2], elems = [FloatV (Fin 1), FloatV (Fin 2)]\<rparr>,
            OArray \<lparr>dtype = Int64, shape = [2], elems = [IntV 0, IntV 10]\<rparr>,
            OList [PRef 1], OList [PStr ''time''], OList [PStr ''ms''],
            OInst [(''data'', PRef 0), (''axes'', PRef 2), (''names'', PRef 3), (''units'', PRef 4)],
            OList [PStr ''x'']];
       dict = [(''data'', PRef 0), (''axes'', PRef 2), (''names'', PRef 3), (''units'', PRef 4)];
       v = \<lparr>dv_data = \<lparr>dtype = Float64, shape = [2], elems = [FloatV (Fin 1), FloatV (Fin 2)]\<rparr>,
            dv_axes = [\<lparr>dtype = Int64, shape = [2], elems = [IntV 0, IntV 10]\<rparr>],
            dv_names = [PStr ''time''], dv_units = [PStr ''ms'']\<rparr>
   in valid_data h (PRef 5) \<and> deref h (PRef 5) = Some (OInst dict) \<and>
      view_of h dict = Some v \<and>
      ''names'' \<in> set [''data'', ''axes'', ''names'', ''units''] \<and>
      view_of h (dict_set ''names'' (PRef 6) dict) = Some (v\<lparr>dv_names := [PStr ''x'']\<rparr>) \<and>
      (\<exists>a ys rdict.
         Data_copy 3 h (PRef 5) [(''names'', PRef 6)] = Inr (PRef a, h @ ys) \<and>
         deref (h @ ys) (PRef a) = Some (OInst rdict) \<and>
         view_of (h @ ys) rdict = Some (v\<lparr>dv_names := [PStr ''x'']\<rparr>) \<and>
         deref (h @ ys) (PRef 5) = Some (OInst dict) \<and>
         view_of (h @ ys) dict = Some v \<and>
         (\<forall>c. reach (h @ ys) a c \<longrightarrow> length h < c) \<and>
         (\<forall>hx. length hx = length h \<longrightarrow>
            deref (hx @ ys) (PRef a) = Some (OInst rdict) \<and>
            view_of (hx @ ys) rdict = Some (v\<lparr>dv_names := [PStr ''x'']\<rparr>)))"
proof -
  let ?a0 = "\<lparr>dtype = Float64, shape = [2], elems = [FloatV (Fin 1), FloatV (Fin 2)]\<rparr>"
  let ?a1 = "\<lparr>dtype = Int64, shape = [2], elems = [IntV 0, IntV 10]\<rparr>"
  let ?dict = "[(''data'', PRef 0), (''axes'', PRef 2), (''names'', PRef 3), (''units'', PRef 4)]"
  let ?h = "[OArray ?a0, OArray ?a1, OList [PRef 1], OList [PStr ''time''], OList [PStr ''ms''],
      OInst ?dict, OList [PStr ''x'']]"
  let ?v = "\<lparr>dv_data = ?a0, dv_axes = [?a1], dv_names = [PStr ''time''],
      dv_units = [PStr ''ms'']\<rparr>"
  have h2: "deref ?h (PRef 5) = Some (OInst ?dict)" by (simp add: deref_def)
  have h3: "view_of ?h ?dict = Some ?v" by (simp add: view_of_def deref_def array_at_def)
  have h1: "valid_data ?h (PRef 5)"
    using h2 h3 by (simp add: valid_data_def data_invariant_def wf_ndarray_def np_len_def)
  have h4: "''names'' \<in> set [''data'', ''axes'', ''names'', ''units'']" by simp
  have h5: "view_of ?h (dict_set ''names'' (PRef 6) ?dict) = Some (?v\<lparr>dv_names := [PStr ''x'']\<rparr>)"
    by (simp add: view_of_def deref_def array_at_def)
  have three: "Suc (Suc (Suc 0)) = 3" by simp
  show ?thesis
    unfolding Let_def
    using h1 h2 h3 h5 copy_with_override[OF h1 h2 h3 h4 h5, of 0] unfolding three
    by simp
qed

end
